theory Spec2Isabelle
  imports Main "HOL-Library.AList" "HOL-Library.Sublist" "HOL-Library.Multiset"
begin

section \<open>The job runner of inferno (src/inferno/lib/job_runner.py)\<close>

text \<open>
  The module schedules the rules of a nested InfernoRule on a disco cluster. Three things
  it calls live outside the module and are parameters of the model:
  \<^item> the rule objects, with their attribute \<open>name\<close> and the function
    \<open>extract_subrules\<close> of inferno.lib.rule (record \<open>rule_ops\<close>); a value of the
    type variable \<open>'r\<close> is one rule object, and equality on \<open>'r\<close> is the equality
    Python's \<open>in\<close> uses;
  \<^item> the list \<open>deduplicate_rules(flatten_rules(rule_))\<close>, which \<open>execute_rule\<close>
    receives as its argument \<open>all_rules\<close>;
  \<^item> the cluster (record \<open>backend\<close>): starting, polling, killing, waiting for and
    purging a job, each a function on an abstract world \<open>'w\<close>.
  The \<open>settings\<close> argument is only handed through to these calls and is left out.
  Every call to the cluster, and every assignment to the blackboard, is appended to a trace.
\<close>

subsection \<open>Data\<close>

type_synonym url = string

text \<open>\<open>urls_blackboard\<close>: a dict from rule name to output urls.\<close>
type_synonym blackboard = "string \<rightharpoonup> url list"

text \<open>\<open>job_results\<close>: a dict from rule name to output urls, in the order of insertion.\<close>
type_synonym job_results = "(string \<times> url list) list"

text \<open>One entry of the list \<open>inactive\<close>: \<open>(jobname, (status, results))\<close>.\<close>
type_synonym job_status = "string \<times> (string \<times> url list)"

datatype error =
    NotEnoughBlobs string   \<comment> \<open>\<open>Exception('There is not enough blobs to run %s' % rule.name)\<close>\<close>
  | ConcurrentJobFailed     \<comment> \<open>\<open>Exception('One of the concurrent jobs failed.')\<close>\<close>
  | KeyError string         \<comment> \<open>\<open>urls_blackboard[sub_rule.name]\<close> on a missing key\<close>
  | CommError               \<comment> \<open>\<open>disco.error.CommError\<close>\<close>
  | JobError string         \<comment> \<open>any other exception of the cluster, with the job's name\<close>

record 'r rule_ops =
  name :: "'r \<Rightarrow> string"
  extract_subrules :: "'r \<Rightarrow> 'r list"

text \<open>
  An InfernoJob that has been started: its rule, its input urls and the name of its disco
  job (\<open>job.job.name\<close>).
\<close>
record 'r inferno_job =
  ij_rule :: 'r
  ij_urls :: "url list"
  ij_name :: string

record ('r, 'w) backend =
  start :: "'r \<Rightarrow> url list \<Rightarrow> 'w \<Rightarrow> string option \<times> 'w"
    \<comment> \<open>\<open>InfernoJob(rule, settings, urls).start()\<close>: the disco job's name, or None\<close>
  results :: "string list \<Rightarrow> 'w \<Rightarrow> (error + job_status list \<times> string list) \<times> 'w"
    \<comment> \<open>\<open>server.results(jobs, 5000)\<close>: an exception, or \<open>(inactive, active)\<close>\<close>
  kill :: "string \<Rightarrow> 'w \<Rightarrow> 'w"
    \<comment> \<open>\<open>server.kill(jobname)\<close>\<close>
  wait :: "string \<Rightarrow> 'w \<Rightarrow> bool \<times> 'w"
    \<comment> \<open>\<open>job.wait()\<close>: False when it raises\<close>
  purge :: "string \<Rightarrow> 'w \<Rightarrow> 'w"
    \<comment> \<open>\<open>job._purge(job.job.name)\<close>\<close>

text \<open>
  The trace: each call to the cluster with its arguments and its answer, and each
  assignment \<open>urls_blackboard[key] = value\<close> of line 126.
\<close>
datatype 'r event =
    Start 'r "url list" "string option"
  | Poll "string list" "error + job_status list \<times> string list"
  | Kill string
  | Wait string bool
  | Purge string
  | Write string "url list"

record ('r, 'w) state =
  world :: 'w
  trace :: "'r event list"

definition emit :: "'r event \<Rightarrow> 'w \<Rightarrow> ('r, 'w) state \<Rightarrow> ('r, 'w) state" where
  "emit e w s = \<lparr>world = w, trace = trace s @ [e]\<rparr>"

subsection \<open>\<open>_start_job\<close> and the resolution of the input urls\<close>

text \<open>
  \<^verbatim>\<open>
  urls = []
  for sub_rule in extract_subrules(rule):
      urls += urls_blackboard[sub_rule.name]
  \<close>
\<close>
fun resolve_urls :: "'r rule_ops \<Rightarrow> blackboard \<Rightarrow> 'r list \<Rightarrow> url list \<Rightarrow> error + url list" where
  "resolve_urls G bb [] urls = Inr urls"
| "resolve_urls G bb (sub_rule # rest) urls =
     (case bb (name G sub_rule) of
        None \<Rightarrow> Inl (KeyError (name G sub_rule))
      | Some us \<Rightarrow> resolve_urls G bb rest (urls @ us))"

text \<open>
  \<open>_start_job\<close> returns the pair \<open>(job, job.start())\<close>, whose second component is None
  when the job did not start; both callers drop the InfernoJob in that case.
\<close>
definition start_job ::
  "('r, 'w) backend \<Rightarrow> 'r \<Rightarrow> url list \<Rightarrow> ('r, 'w) state
     \<Rightarrow> ('r inferno_job \<times> string) option \<times> ('r, 'w) state" where
  "start_job be rule urls s =
     (case start be rule urls (world s) of
        (None, w) \<Rightarrow> (None, emit (Start rule urls None) w s)
      | (Some j, w) \<Rightarrow>
          (Some (\<lparr>ij_rule = rule, ij_urls = urls, ij_name = j\<rparr>, j),
           emit (Start rule urls (Some j)) w s))"

subsection \<open>\<open>_run_concurrent_rules\<close>\<close>

text \<open>\<open>disco_job_name.rsplit('@')[0]\<close>: the part before the first \<open>@\<close>.\<close>
definition get_rule_name :: "string \<Rightarrow> string" where
  "get_rule_name disco_job_name = takeWhile (\<lambda>c. c \<noteq> CHR ''@'') disco_job_name"

text \<open>The first loop (lines 33 to 42): start a job for every rule of the list.\<close>
fun start_rules ::
  "('r, 'w) backend \<Rightarrow> 'r rule_ops \<Rightarrow> blackboard \<Rightarrow> 'r list
     \<Rightarrow> string list \<times> 'r inferno_job list \<Rightarrow> ('r, 'w) state
     \<Rightarrow> (error + string list \<times> 'r inferno_job list) \<times> ('r, 'w) state" where
  "start_rules be G bb [] acc s = (Inr acc, s)"
| "start_rules be G bb (rule # rest) (jobs, inferno_jobs) s =
     (case resolve_urls G bb (extract_subrules G rule) [] of
        Inl e \<Rightarrow> (Inl e, s)
      | Inr urls \<Rightarrow>
          (case start_job be rule urls s of
             (None, s') \<Rightarrow> (Inl (NotEnoughBlobs (name G rule)), s')
           | (Some (inferno_job, job), s') \<Rightarrow>
               start_rules be G bb rest (jobs @ [job], inferno_jobs @ [inferno_job]) s'))"

text \<open>The body of \<open>for jobname, (status, results) in inactive\<close> (lines 53 to 57).\<close>
definition record_status :: "job_status \<Rightarrow> job_results \<times> bool \<Rightarrow> job_results \<times> bool" where
  "record_status js acc =
     (case js of (jobname, (status, res)) \<Rightarrow>
        (case acc of (job_results, stop) \<Rightarrow>
           if status = ''ready'' then (AList.update (get_rule_name jobname) res job_results, stop)
           else if status = ''dead'' then (job_results, True)
           else (job_results, stop)))"

text \<open>
  The loop \<open>while jobs\<close> (lines 47 to 60). The loop has no bound of its own; the first
  argument bounds the number of polls, and None says that the bound was reached with the
  loop still running. The result is \<open>(jobs, job_results, stop)\<close> at the exit.
\<close>
fun poll_jobs ::
  "nat \<Rightarrow> ('r, 'w) backend \<Rightarrow> string list \<Rightarrow> job_results \<Rightarrow> ('r, 'w) state
     \<Rightarrow> ((error + string list \<times> job_results \<times> bool) \<times> ('r, 'w) state) option" where
  "poll_jobs 0 be jobs job_results s =
     (if jobs = [] then Some (Inr (jobs, job_results, False), s) else None)"
| "poll_jobs (Suc n) be jobs job_results s =
     (if jobs = [] then Some (Inr (jobs, job_results, False), s)
      else
        (case results be jobs (world s) of
           (Inl e, w) \<Rightarrow>
             if e = CommError then poll_jobs n be jobs job_results (emit (Poll jobs (Inl e)) w s)
             else Some (Inl e, emit (Poll jobs (Inl e)) w s)
         | (Inr (inactive, active), w) \<Rightarrow>
             (case fold record_status inactive (job_results, False) of
                (job_results', stop) \<Rightarrow>
                  if stop
                  then Some (Inr (active, job_results', True),
                             emit (Poll jobs (Inr (inactive, active))) w s)
                  else poll_jobs n be active job_results'
                         (emit (Poll jobs (Inr (inactive, active))) w s))))"

text \<open>
  Lines 62 to 67. The \<open>raise\<close> stands inside the body of \<open>for jobname, _ in jobs\<close>: the
  first job of the list is killed and the exception leaves the loop; on an empty list the
  body never runs and the function goes on to its \<open>return\<close>.
\<close>
definition kill_jobs ::
  "('r, 'w) backend \<Rightarrow> string list \<Rightarrow> ('r, 'w) state \<Rightarrow> (error + unit) \<times> ('r, 'w) state" where
  "kill_jobs be jobs s =
     (case jobs of
        [] \<Rightarrow> (Inr (), s)
      | jobname # _ \<Rightarrow> (Inl ConcurrentJobFailed, emit (Kill jobname) (kill be jobname (world s)) s))"

definition run_concurrent_rules ::
  "nat \<Rightarrow> ('r, 'w) backend \<Rightarrow> 'r rule_ops \<Rightarrow> 'r list \<Rightarrow> blackboard \<Rightarrow> ('r, 'w) state
     \<Rightarrow> ((error + 'r inferno_job list \<times> job_results) \<times> ('r, 'w) state) option" where
  "run_concurrent_rules fuel be G rule_list urls_blackboard s =
     (case start_rules be G urls_blackboard rule_list ([], []) s of
        (Inl e, s1) \<Rightarrow> Some (Inl e, s1)
      | (Inr (jobs, inferno_jobs), s1) \<Rightarrow>
          (case poll_jobs fuel be jobs [] s1 of
             None \<Rightarrow> None
           | Some (Inl e, s2) \<Rightarrow> Some (Inl e, s2)
           | Some (Inr (jobs', job_results, stop), s2) \<Rightarrow>
               if stop then
                 (case kill_jobs be jobs' s2 of
                    (Inl e, s3) \<Rightarrow> Some (Inl e, s3)
                  | (Inr u, s3) \<Rightarrow> Some (Inr (inferno_jobs, job_results), s3))
               else Some (Inr (inferno_jobs, job_results), s2)))"

subsection \<open>\<open>_run_sequential_rules\<close>\<close>

fun run_sequential_rules ::
  "('r, 'w) backend \<Rightarrow> 'r rule_ops \<Rightarrow> 'r list \<Rightarrow> blackboard \<Rightarrow> ('r, 'w) state
     \<Rightarrow> (error + unit) \<times> ('r, 'w) state" where
  "run_sequential_rules be G [] bb s = (Inr (), s)"
| "run_sequential_rules be G (rule # rest) bb s =
     (case resolve_urls G bb (extract_subrules G rule) [] of
        Inl e \<Rightarrow> (Inl e, s)
      | Inr urls \<Rightarrow>
          (case start_job be rule urls s of
             (None, s') \<Rightarrow> (Inl (NotEnoughBlobs (name G rule)), s')
           | (Some (job, disco_job), s') \<Rightarrow>
               (case wait be disco_job (world s') of
                  (ok, w) \<Rightarrow>
                    if ok then run_sequential_rules be G rest bb (emit (Wait disco_job True) w s')
                    else (Inl (JobError disco_job), emit (Wait disco_job False) w s'))))"

subsection \<open>\<open>execute_rule\<close>\<close>

text \<open>
  \<open>blackboard.get(sub_rule.name, None)\<close> is false for a missing key and for an empty list.
\<close>
definition has_urls :: "blackboard \<Rightarrow> string \<Rightarrow> bool" where
  "has_urls blackboard n = (case blackboard n of None \<Rightarrow> False | Some us \<Rightarrow> us \<noteq> [])"

text \<open>The inner loop of \<open>_get_runable_rules\<close>, with its \<open>break\<close>.\<close>
fun subrules_ready :: "'r rule_ops \<Rightarrow> blackboard \<Rightarrow> 'r list \<Rightarrow> bool" where
  "subrules_ready G blackboard [] = True"
| "subrules_ready G blackboard (sub_rule # rest) =
     (if \<not> has_urls blackboard (name G sub_rule) then False
      else subrules_ready G blackboard rest)"

fun get_runable_rules :: "'r rule_ops \<Rightarrow> 'r list \<Rightarrow> blackboard \<Rightarrow> 'r list" where
  "get_runable_rules G [] blackboard = []"
| "get_runable_rules G (rule # rules) blackboard =
     (if subrules_ready G blackboard (extract_subrules G rule)
      then rule # get_runable_rules G rules blackboard
      else get_runable_rules G rules blackboard)"

text \<open>
  \<^verbatim>\<open>
  for key, value in ret.iteritems():
      urls_blackboard[key] = value
  \<close>
\<close>
fun fold_results ::
  "job_results \<Rightarrow> blackboard \<Rightarrow> ('r, 'w) state \<Rightarrow> blackboard \<times> ('r, 'w) state" where
  "fold_results [] bb s = (bb, s)"
| "fold_results ((key, val) # ret) bb s =
     fold_results ret (bb(key \<mapsto> val)) (emit (Write key val) (world s) s)"

text \<open>
  The loop \<open>while sub_rules\<close> (lines 118 to 127). The first argument bounds the number of
  iterations, the second the number of polls of each batch; None says that a bound was
  reached with a loop still running.
\<close>
fun batch_loop ::
  "nat \<Rightarrow> nat \<Rightarrow> ('r, 'w) backend \<Rightarrow> 'r rule_ops \<Rightarrow> 'r list \<Rightarrow> blackboard
     \<Rightarrow> 'r inferno_job list \<Rightarrow> ('r, 'w) state
     \<Rightarrow> ((error + blackboard \<times> 'r inferno_job list) \<times> ('r, 'w) state) option" where
  "batch_loop 0 fuel be G sub_rules bb inferno_jobs s =
     (if sub_rules = [] then Some (Inr (bb, inferno_jobs), s) else None)"
| "batch_loop (Suc n) fuel be G sub_rules bb inferno_jobs s =
     (if sub_rules = [] then Some (Inr (bb, inferno_jobs), s)
      else
        (case run_concurrent_rules fuel be G (get_runable_rules G sub_rules bb) bb s of
           None \<Rightarrow> None
         | Some (Inl e, s') \<Rightarrow> Some (Inl e, s')
         | Some (Inr (jobs, ret), s') \<Rightarrow>
             (case fold_results ret bb s' of
                (bb', s'') \<Rightarrow>
                  batch_loop n fuel be G
                    (filter (\<lambda>rule. rule \<notin> set (get_runable_rules G sub_rules bb)) sub_rules)
                    bb' (inferno_jobs @ jobs) s'')))"

text \<open>Lines 132 and 133: \<open>for job in inferno_jobs: job._purge(job.job.name)\<close>.\<close>
fun purge_jobs ::
  "('r, 'w) backend \<Rightarrow> 'r inferno_job list \<Rightarrow> ('r, 'w) state \<Rightarrow> ('r, 'w) state" where
  "purge_jobs be [] s = s"
| "purge_jobs be (job # rest) s =
     purge_jobs be rest (emit (Purge (ij_name job)) (purge be (ij_name job) (world s)) s)"

text \<open>Lines 111 to 113: every rule's entry starts as the empty list.\<close>
fun init_blackboard :: "'r rule_ops \<Rightarrow> 'r list \<Rightarrow> blackboard \<Rightarrow> blackboard" where
  "init_blackboard G [] bb = bb"
| "init_blackboard G (rule # rest) bb = init_blackboard G rest (bb(name G rule \<mapsto> []))"

text \<open>\<open>all_rules[-1:]\<close> and \<open>all_rules[:-1]\<close>.\<close>
definition parent_of :: "'r list \<Rightarrow> 'r list" where
  "parent_of all_rules = (case all_rules of [] \<Rightarrow> [] | _ # _ \<Rightarrow> [last all_rules])"

definition sub_rules_of :: "'r list \<Rightarrow> 'r list" where
  "sub_rules_of all_rules = butlast all_rules"

definition execute_rule ::
  "nat \<Rightarrow> nat \<Rightarrow> ('r, 'w) backend \<Rightarrow> 'r rule_ops \<Rightarrow> 'r list \<Rightarrow> 'w
     \<Rightarrow> ((error + unit) \<times> ('r, 'w) state) option" where
  "execute_rule n fuel be G all_rules w =
     (case batch_loop n fuel be G (sub_rules_of all_rules)
             (init_blackboard G all_rules Map.empty) [] \<lparr>world = w, trace = []\<rparr> of
        None \<Rightarrow> None
      | Some (Inl e, s) \<Rightarrow> Some (Inl e, s)
      | Some (Inr (urls_blackboard, inferno_jobs), s) \<Rightarrow>
          (case run_sequential_rules be G (parent_of all_rules) urls_blackboard s of
             (Inl e, s') \<Rightarrow> Some (Inl e, s')
           | (Inr u, s') \<Rightarrow> Some (Inr (), purge_jobs be inferno_jobs s')))"

subsection \<open>Reading a trace\<close>

text \<open>The rules for which a job start was asked, the keys and values assigned to the
  blackboard, the jobs waited for, killed and purged, each in the order of the trace.\<close>

fun started :: "'r event list \<Rightarrow> 'r list" where
  "started [] = []"
| "started (Start rule urls j # es) = rule # started es"
| "started (e # es) = started es"

fun writes :: "'r event list \<Rightarrow> (string \<times> url list) list" where
  "writes [] = []"
| "writes (Write key val # es) = (key, val) # writes es"
| "writes (e # es) = writes es"

fun waited :: "'r event list \<Rightarrow> string list" where
  "waited [] = []"
| "waited (Wait j ok # es) = j # waited es"
| "waited (e # es) = waited es"

fun killed :: "'r event list \<Rightarrow> string list" where
  "killed [] = []"
| "killed (Kill j # es) = j # killed es"
| "killed (e # es) = killed es"

fun purged :: "'r event list \<Rightarrow> string list" where
  "purged [] = []"
| "purged (Purge j # es) = j # purged es"
| "purged (e # es) = purged es"

text \<open>
  The input of a rule as the specification words it: the concatenation, in the order of
  \<open>extract_subrules\<close>, of the blackboard entries of the rule's direct sub-rules; there is
  none when a sub-rule has no entry.
\<close>
definition resolved_inputs :: "'r rule_ops \<Rightarrow> blackboard \<Rightarrow> 'r \<Rightarrow> url list option" where
  "resolved_inputs G bb rule =
     (if \<forall>sub_rule \<in> set (extract_subrules G rule). bb (name G sub_rule) \<noteq> None
      then Some (concat (map (\<lambda>sub_rule. the (bb (name G sub_rule))) (extract_subrules G rule)))
      else None)"

text \<open>An event that starts one of the given rules on its resolved input.\<close>
definition start_of :: "'r rule_ops \<Rightarrow> blackboard \<Rightarrow> 'r list \<Rightarrow> 'r event \<Rightarrow> bool" where
  "start_of G bb rules e =
     (case e of
        Start rule urls j \<Rightarrow> rule \<in> set rules \<and> resolved_inputs G bb rule = Some urls
      | _ \<Rightarrow> False)"

subsection \<open>The contract of the cluster, and what a poll loop establishes\<close>

text \<open>Kinds of events.\<close>
definition is_poll :: "'r event \<Rightarrow> bool" where
  "is_poll e = (case e of Poll jobs r \<Rightarrow> True | _ \<Rightarrow> False)"

text \<open>The event that the start of an InfernoJob leaves in the trace.\<close>
definition start_event :: "'r inferno_job \<Rightarrow> 'r event" where
  "start_event job = Start (ij_rule job) (ij_urls job) (Some (ij_name job))"

text \<open>The cluster reports only jobs it was asked about.\<close>
definition reports_polled :: "('r, 'w) backend \<Rightarrow> bool" where
  "reports_polled be =
     (\<forall>jobs w inactive active.
        fst (results be jobs w) = Inr (inactive, active) \<longrightarrow>
          fst ` set inactive \<subseteq> set jobs \<and> set active \<subseteq> set jobs)"

text \<open>
  The name of the disco job of each of the given rules is the rule's name, an \<open>@\<close> and
  a suffix.
\<close>
definition names_jobs :: "('r, 'w) backend \<Rightarrow> 'r rule_ops \<Rightarrow> 'r list \<Rightarrow> bool" where
  "names_jobs be G rules =
     (\<forall>rule \<in> set rules. \<forall>urls w j.
        fst (start be rule urls w) = Some j \<longrightarrow> get_rule_name j = name G rule)"

text \<open>Some poll of the trace reported the job ready with the given output urls.\<close>
definition ready_report :: "'r event list \<Rightarrow> string \<Rightarrow> url list \<Rightarrow> bool" where
  "ready_report tr j v =
     (\<exists>jobs inactive active.
        Poll jobs (Inr (inactive, active)) \<in> set tr \<and> (j, (''ready'', v)) \<in> set inactive)"

text \<open>Every poll of the trace asks about, and reports, only the given jobs.\<close>
fun polls_within :: "string list \<Rightarrow> 'r event list \<Rightarrow> bool" where
  "polls_within jobs0 [] = True"
| "polls_within jobs0 (Poll jobs (Inr (inactive, active)) # tr) =
     (set jobs \<subseteq> set jobs0 \<and> fst ` set inactive \<subseteq> set jobs0 \<and> polls_within jobs0 tr)"
| "polls_within jobs0 (e # tr) = polls_within jobs0 tr"

text \<open>The results \<open>jr'\<close> are those of \<open>jr\<close> and results that a poll of \<open>new\<close> reported.\<close>
definition results_from :: "job_results \<Rightarrow> 'r event list \<Rightarrow> job_results \<Rightarrow> bool" where
  "results_from jr new jr' =
     ((distinct (map fst jr) \<longrightarrow> distinct (map fst jr'))
      \<and> (\<forall>k v. (k, v) \<in> set jr' \<longrightarrow>
            (k, v) \<in> set jr \<or> (\<exists>j. get_rule_name j = k \<and> ready_report new j v)))"

text \<open>What holds of the events \<open>new\<close> and the result \<open>r\<close> of a poll loop that was
  entered with the jobs \<open>jobs\<close> and the results \<open>jr\<close>.\<close>
definition poll_post ::
  "('r, 'w) backend \<Rightarrow> string list \<Rightarrow> job_results \<Rightarrow> 'r event list
     \<Rightarrow> (error + string list \<times> job_results \<times> bool) \<Rightarrow> bool" where
  "poll_post be jobs jr new r =
     ((\<forall>e \<in> set new. is_poll e) \<and> r \<noteq> Inl CommError
      \<and> (reports_polled be \<longrightarrow> polls_within jobs new)
      \<and> (case r of
            Inl e \<Rightarrow> True
          | Inr (jobs', jr', stop) \<Rightarrow> results_from jr new jr' \<and> (\<not> stop \<longrightarrow> jobs' = [])))"


definition write_event :: "string \<times> url list \<Rightarrow> 'r event" where
  "write_event kv = Write (fst kv) (snd kv)"

definition purge_event :: "'r inferno_job \<Rightarrow> 'r event" where
  "purge_event job = Purge (ij_name job)"

subsection \<open>A small graph and two clusters, for concrete runs\<close>

text \<open>
  Rules are given by their names; \<open>C\<close> has the sub-rules \<open>A\<close> and \<open>B\<close>, every other
  rule has none.
\<close>
definition demo_ops :: "string rule_ops" where
  "demo_ops = \<lparr>name = (\<lambda>r. r),
               extract_subrules = (\<lambda>r. if r = ''C'' then [''A'', ''B''] else [])\<rparr>"

text \<open>
  A cluster that answers the polls from a script (its world): rules listed in \<open>bad\<close> do
  not start, every other rule \<open>r\<close> starts as the job \<open>r@1\<close>; once the script is used up
  every polled job is reported active.
\<close>
definition script_backend ::
  "string list \<Rightarrow> (string, (error + job_status list \<times> string list) list) backend" where
  "script_backend bad =
     \<lparr>start = (\<lambda>r urls w. (if r \<in> set bad then None else Some (r @ ''@1''), w)),
      results = (\<lambda>jobs w. case w of [] \<Rightarrow> (Inr ([], jobs), []) | x # xs \<Rightarrow> (x, xs)),
      kill = (\<lambda>j w. w),
      wait = (\<lambda>j w. (True, w)),
      purge = (\<lambda>j w. w)\<rparr>"

text \<open>
  A cluster on which every rule \<open>r\<close> starts as the job \<open>r@1\<close> and every polled job is
  reported ready at once, with one output url.
\<close>
definition ready_backend :: "(string, unit) backend" where
  "ready_backend =
     \<lparr>start = (\<lambda>r urls w. (Some (r @ ''@1''), w)),
      results = (\<lambda>jobs w. (Inr (map (\<lambda>j. (j, (''ready'', [''out:'' @ j]))) jobs, []), w)),
      kill = (\<lambda>j w. w),
      wait = (\<lambda>j w. (True, w)),
      purge = (\<lambda>j w. w)\<rparr>"

definition demo_blackboard :: blackboard where
  "demo_blackboard = [''A'' \<mapsto> [''a1''], ''B'' \<mapsto> [''b1''], ''C'' \<mapsto> []]"

definition demo_polls :: "(error + job_status list \<times> string list) list" where
  "demo_polls = [Inl CommError, Inr ([(''A@1'', (''ready'', [''a1'']))], [])]"

text \<open>Every rule's entry empty, as \<open>execute_rule\<close> initialises the blackboard.\<close>
definition empty_blackboard :: blackboard where
  "empty_blackboard = [''A'' \<mapsto> [], ''B'' \<mapsto> [], ''C'' \<mapsto> [], ''D'' \<mapsto> []]"

text \<open>One poll: \<open>A\<close> is ready, \<open>B\<close> is dead, no job is active any more.\<close>
definition dead_poll :: "error + job_status list \<times> string list" where
  "dead_poll = Inr ([(''A@1'', (''ready'', [''a1''])), (''B@1'', (''dead'', []))], [])"

text \<open>One poll: \<open>B\<close> is dead, \<open>A\<close> and \<open>D\<close> are still active.\<close>
definition dead_poll_active :: "error + job_status list \<times> string list" where
  "dead_poll_active = Inr ([(''B@1'', (''dead'', []))], [''A@1'', ''D@1''])"

text \<open>The names of the jobs that were started, in the order of the trace.\<close>
fun jobs_started :: "'r event list \<Rightarrow> string list" where
  "jobs_started [] = []"
| "jobs_started (Start rule urls (Some j) # es) = j # jobs_started es"
| "jobs_started (e # es) = jobs_started es"






text \<open>
  A cluster that cooperates on the given rules: it takes every job of theirs and names it
  after the rule, it reports every polled job ready at once, with some output, and every
  wait succeeds.
\<close>
definition cooperative :: "('r, 'w) backend \<Rightarrow> 'r rule_ops \<Rightarrow> 'r list \<Rightarrow> bool" where
  "cooperative be G rules =
     ((\<forall>rule \<in> set rules. \<forall>urls w.
         \<exists>j. fst (start be rule urls w) = Some j \<and> get_rule_name j = name G rule)
      \<and> (\<forall>jobs w. \<exists>inactive.
            fst (results be jobs w) = Inr (inactive, []) \<and> map fst inactive = jobs
            \<and> (\<forall>js \<in> set inactive. fst (snd js) = ''ready'' \<and> snd (snd js) \<noteq> []))
      \<and> (\<forall>j w. fst (wait be j w)))"

text \<open>
  The rules form a directed acyclic graph: the sub-rules of every rule are among the rules
  before the last one, and a rank decreases from every rule to its sub-rules.
\<close>
definition dag :: "'r rule_ops \<Rightarrow> ('r \<Rightarrow> nat) \<Rightarrow> 'r list \<Rightarrow> bool" where
  "dag G rank all_rules =
     (\<forall>rule \<in> set all_rules. \<forall>sub_rule \<in> set (extract_subrules G rule).
        sub_rule \<in> set (sub_rules_of all_rules) \<and> rank sub_rule < rank rule)"

definition diamond_ops :: "string rule_ops" where
  "diamond_ops = \<lparr>name = (\<lambda>r. r),
                  extract_subrules = (\<lambda>r. if r = ''T'' then [''P'', ''Q'']
                                           else if r = ''P'' \<or> r = ''Q'' then [''S''] else [])\<rparr>"



type_synonym ('r, 'w) loop_state =
  "'r list \<times> blackboard \<times> 'r inferno_job list \<times> ('r, 'w) state"

text \<open>
  One pass through the body of the loop (lines 119 to 127), when the batch returns: the
  variables after the pass. There is none when the batch raises or its poll loop reaches
  the bound.
\<close>
definition loop_body ::
  "nat \<Rightarrow> ('r, 'w) backend \<Rightarrow> 'r rule_ops \<Rightarrow> ('r, 'w) loop_state
     \<Rightarrow> ('r, 'w) loop_state option" where
  "loop_body fuel be G st =
     (case st of (sub_rules, bb, inferno_jobs, s) \<Rightarrow>
        (case run_concurrent_rules fuel be G (get_runable_rules G sub_rules bb) bb s of
           Some (Inr (jobs, ret), s') \<Rightarrow>
             (case fold_results ret bb s' of
                (bb', s'') \<Rightarrow>
                  Some (filter (\<lambda>rule. rule \<notin> set (get_runable_rules G sub_rules bb)) sub_rules,
                        bb', inferno_jobs @ jobs, s''))
         | _ \<Rightarrow> None))"

fun iteration ::
  "nat \<Rightarrow> nat \<Rightarrow> ('r, 'w) backend \<Rightarrow> 'r rule_ops \<Rightarrow> ('r, 'w) loop_state
     \<Rightarrow> ('r, 'w) loop_state option" where
  "iteration 0 fuel be G st = (if fst st = [] then None else Some st)"
| "iteration (Suc k) fuel be G st =
     (if fst st = [] then None
      else (case loop_body fuel be G st of
              None \<Rightarrow> None
            | Some st' \<Rightarrow> iteration k fuel be G st'))"

section \<open>Traces\<close>

lemma started_append [simp]: "started (xs @ ys) = started xs @ started ys"
  by (induction xs rule: started.induct) auto

lemma writes_append [simp]: "writes (xs @ ys) = writes xs @ writes ys"
  by (induction xs rule: writes.induct) auto

lemma waited_append [simp]: "waited (xs @ ys) = waited xs @ waited ys"
  by (induction xs rule: waited.induct) auto

lemma killed_append [simp]: "killed (xs @ ys) = killed xs @ killed ys"
  by (induction xs rule: killed.induct) auto

lemma purged_append [simp]: "purged (xs @ ys) = purged xs @ purged ys"
  by (induction xs rule: purged.induct) auto




section \<open>Input resolution and job start\<close>

lemma resolve_urls_Inr:
  "resolve_urls G bb subs urls = Inr us \<Longrightarrow>
     (\<forall>sub \<in> set subs. bb (name G sub) \<noteq> None)
     \<and> us = urls @ concat (map (\<lambda>sub. the (bb (name G sub))) subs)"
proof (induction subs arbitrary: urls)
  case Nil
  then show ?case by simp
next
  case (Cons sub rest)
  then obtain x where x: "bb (name G sub) = Some x"
    and r: "resolve_urls G bb rest (urls @ x) = Inr us"
    by (auto split: option.splits)
  from Cons.IH[OF r] x show ?case by simp
qed

lemma resolve_urls_Inl:
  "resolve_urls G bb subs urls = Inl e \<Longrightarrow> \<exists>sub \<in> set subs. bb (name G sub) = None \<and> e = KeyError (name G sub)"
  by (induction subs arbitrary: urls) (auto split: option.splits)

lemma resolve_urls_resolved:
  "resolve_urls G bb (extract_subrules G rule) [] = Inr us \<Longrightarrow> resolved_inputs G bb rule = Some us"
  using resolve_urls_Inr[of G bb "extract_subrules G rule" "[]" us]
  by (simp add: resolved_inputs_def)

lemma start_job_None:
  "start_job be rule urls s = (None, s') \<Longrightarrow> trace s' = trace s @ [Start rule urls None]"
  by (auto simp: start_job_def emit_def split: prod.splits option.splits)

lemma start_job_Some:
  "start_job be rule urls s = (Some (ij, j), s') \<Longrightarrow>
     trace s' = trace s @ [start_event ij] \<and>
     ij_rule ij = rule \<and> ij_urls ij = urls \<and> ij_name ij = j \<and>
     fst (start be rule urls (world s)) = Some j"
  by (auto simp: start_job_def emit_def start_event_def split: prod.splits option.splits)

section \<open>The start loop of the coordinator\<close>

lemma start_of_mono:
  "start_of G bb rules e \<Longrightarrow> set rules \<subseteq> set rules' \<Longrightarrow> start_of G bb rules' e"
  by (auto simp: start_of_def split: event.splits)

lemma start_rules_Inl:
  "start_rules be G bb rules acc s = (Inl e, s') \<Longrightarrow>
     \<exists>new. trace s' = trace s @ new \<and> (\<forall>ev \<in> set new. start_of G bb rules ev)
       \<and> e \<noteq> CommError \<and> e \<noteq> ConcurrentJobFailed"
proof (induction rules arbitrary: acc s)
  case Nil
  then show ?case by simp
next
  case (Cons rule rest)
  obtain jobs ijs where acc: "acc = (jobs, ijs)" by (cases acc)
  show ?case
  proof (cases "resolve_urls G bb (extract_subrules G rule) []")
    case (Inl e')
    with Cons.prems acc have "s' = s" "e = e'" by auto
    with resolve_urls_Inl[OF Inl] show ?thesis by auto
  next
    case (Inr urls)
    note ru = resolve_urls_resolved[OF Inr]
    obtain r s1 where sj: "start_job be rule urls s = (r, s1)" by (cases "start_job be rule urls s")
    show ?thesis
    proof (cases r)
      case None
      with Cons.prems acc Inr sj have "s' = s1" "e = NotEnoughBlobs (name G rule)" by auto
      with start_job_None[of be rule urls s s1] sj None ru show ?thesis
        by (auto simp: start_of_def)
    next
      case (Some p)
      obtain ij j where p: "p = (ij, j)" by (cases p)
      from Cons.prems acc Inr sj Some p
      have "start_rules be G bb rest (jobs @ [j], ijs @ [ij]) s1 = (Inl e, s')" by simp
      from Cons.IH[OF this] obtain new where
        n: "trace s' = trace s1 @ new" "\<forall>ev \<in> set new. start_of G bb rest ev"
           "e \<noteq> CommError \<and> e \<noteq> ConcurrentJobFailed" by blast
      have "\<forall>ev \<in> set new. start_of G bb (rule # rest) ev"
        using n(2) by (auto intro: start_of_mono)
      moreover have "start_of G bb (rule # rest) (start_event ij)"
        using start_job_Some[of be rule urls s ij j s1] sj Some p ru
        by (simp add: start_of_def start_event_def)
      moreover have "trace s' = trace s @ start_event ij # new"
        using start_job_Some[of be rule urls s ij j s1] sj Some p n(1) by simp
      ultimately show ?thesis using n(3)
        by (intro exI[of _ "start_event ij # new"]) auto
    qed
  qed
qed

text \<open>A successful start loop: one started InfernoJob for each rule, in the order of the list.\<close>
lemma start_rules_Inr:
  "start_rules be G bb rules (jobs, ijs) s = (Inr (jobs', ijs'), s') \<Longrightarrow>
     \<exists>new. trace s' = trace s @ map start_event new
       \<and> jobs' = jobs @ map ij_name new \<and> ijs' = ijs @ new
       \<and> map ij_rule new = rules
       \<and> (\<forall>ij \<in> set new. resolved_inputs G bb (ij_rule ij) = Some (ij_urls ij)
             \<and> (\<exists>w. fst (start be (ij_rule ij) (ij_urls ij) w) = Some (ij_name ij)))"
proof (induction rules arbitrary: jobs ijs s)
  case Nil
  then show ?case by simp
next
  case (Cons rule rest)
  show ?case
  proof (cases "resolve_urls G bb (extract_subrules G rule) []")
    case (Inl e')
    with Cons.prems show ?thesis by auto
  next
    case (Inr urls)
    note ru = resolve_urls_resolved[OF Inr]
    obtain r s1 where sj: "start_job be rule urls s = (r, s1)" by (cases "start_job be rule urls s")
    show ?thesis
    proof (cases r)
      case None
      with Cons.prems Inr sj show ?thesis by auto
    next
      case (Some p)
      obtain ij j where p: "p = (ij, j)" by (cases p)
      note sjs = start_job_Some[of be rule urls s ij j s1]
      from Cons.prems Inr sj Some p
      have "start_rules be G bb rest (jobs @ [j], ijs @ [ij]) s1 = (Inr (jobs', ijs'), s')" by simp
      from Cons.IH[OF this] obtain new where
        n: "trace s' = trace s1 @ map start_event new"
           "jobs' = (jobs @ [j]) @ map ij_name new" "ijs' = (ijs @ [ij]) @ new"
           "map ij_rule new = rest"
           "\<forall>ij \<in> set new. resolved_inputs G bb (ij_rule ij) = Some (ij_urls ij)
              \<and> (\<exists>w. fst (start be (ij_rule ij) (ij_urls ij) w) = Some (ij_name ij))"
        by blast
      have "resolved_inputs G bb (ij_rule ij) = Some (ij_urls ij)
              \<and> (\<exists>w. fst (start be (ij_rule ij) (ij_urls ij) w) = Some (ij_name ij))"
        using sjs sj Some p ru by auto
      with n sjs sj Some p show ?thesis
        by (intro exI[of _ "ij # new"]) auto
    qed
  qed
qed


section \<open>The poll loop\<close>

lemma set_AList_update:
  "(k', v') \<in> set (AList.update k v al) \<Longrightarrow> (k', v') \<in> set al \<or> (k' = k \<and> v' = v)"
  by (induction al) (auto split: if_splits)

lemma fold_record_status:
  "fold record_status inactive (jr, stop) = (jr', stop') \<Longrightarrow>
     (distinct (map fst jr) \<longrightarrow> distinct (map fst jr'))
     \<and> (\<forall>(k, v) \<in> set jr'. (k, v) \<in> set jr \<or>
           (\<exists>j. (j, (''ready'', v)) \<in> set inactive \<and> get_rule_name j = k))
     \<and> (stop' \<longleftrightarrow> stop \<or> (\<exists>j v. (j, (''dead'', v)) \<in> set inactive))"
proof (induction inactive arbitrary: jr stop)
  case Nil
  then show ?case by auto
next
  case (Cons x inactive)
  obtain j st v where x: "x = (j, (st, v))" by (cases x) auto
  obtain jr1 stop1 where r1: "record_status x (jr, stop) = (jr1, stop1)"
    by (cases "record_status x (jr, stop)")
  from Cons.prems r1 have f: "fold record_status inactive (jr1, stop1) = (jr', stop')" by simp
  note IH = Cons.IH[OF f]
  have d1: "distinct (map fst jr) \<longrightarrow> distinct (map fst jr1)"
    using r1 x by (auto simp: record_status_def distinct_update split: if_splits)
  have m1: "\<forall>(k, v') \<in> set jr1. (k, v') \<in> set jr \<or> (st = ''ready'' \<and> v' = v \<and> get_rule_name j = k)"
    using r1 x by (auto simp: record_status_def split: if_splits dest: set_AList_update)
  have s1: "stop1 \<longleftrightarrow> stop \<or> st = ''dead''"
    using r1 x by (auto simp: record_status_def split: if_splits)
  show ?case
  proof (intro conjI)
    show "distinct (map fst jr) \<longrightarrow> distinct (map fst jr')" using IH d1 by blast
    show "\<forall>(k, v) \<in> set jr'. (k, v) \<in> set jr \<or>
           (\<exists>j. (j, (''ready'', v)) \<in> set (x # inactive) \<and> get_rule_name j = k)"
    proof (clarify)
      fix k v'
      assume kv: "(k, v') \<in> set jr'" and nex: "\<not> (\<exists>j. (j, (''ready'', v')) \<in> set (x # inactive) \<and> get_rule_name j = k)"
      from IH kv have "(k, v') \<in> set jr1 \<or> (\<exists>j. (j, (''ready'', v')) \<in> set inactive \<and> get_rule_name j = k)"
        by blast
      with nex have "(k, v') \<in> set jr1" by auto
      with m1 have "(k, v') \<in> set jr \<or> (st = ''ready'' \<and> v' = v \<and> get_rule_name j = k)" by blast
      with nex x show "(k, v') \<in> set jr" by auto
    qed
    show "stop' \<longleftrightarrow> stop \<or> (\<exists>j v. (j, (''dead'', v)) \<in> set (x # inactive))"
      using IH s1 x by auto
  qed
qed


lemma ready_report_mono: "ready_report tr j v \<Longrightarrow> set tr \<subseteq> set tr' \<Longrightarrow> ready_report tr' j v"
  unfolding ready_report_def by blast

lemma polls_within_mono:
  "polls_within jobs1 tr \<Longrightarrow> set jobs1 \<subseteq> set jobs0 \<Longrightarrow> polls_within jobs0 tr"
  by (induction jobs1 tr rule: polls_within.induct) auto

lemma polls_within_reports:
  "polls_within jobs0 tr \<Longrightarrow> Poll jobs (Inr (inactive, active)) \<in> set tr \<Longrightarrow>
     set jobs \<subseteq> set jobs0 \<and> fst ` set inactive \<subseteq> set jobs0"
  by (induction jobs0 tr rule: polls_within.induct) auto

lemma results_from_refl: "results_from jr new jr"
  by (simp add: results_from_def)

lemma results_from_mono:
  assumes "results_from jr new jr'" and "set new \<subseteq> set new'"
  shows "results_from jr new' jr'"
proof -
  have "(k, v) \<in> set jr \<or> (\<exists>j. get_rule_name j = k \<and> ready_report new' j v)"
    if "(k, v) \<in> set jr'" for k v
  proof -
    from assms(1) that
    have "(k, v) \<in> set jr \<or> (\<exists>j. get_rule_name j = k \<and> ready_report new j v)"
      unfolding results_from_def by blast
    then show ?thesis
    proof
      assume "(k, v) \<in> set jr" then show ?thesis ..
    next
      assume "\<exists>j. get_rule_name j = k \<and> ready_report new j v"
      then obtain j where "get_rule_name j = k" "ready_report new j v" by blast
      with ready_report_mono[OF _ assms(2)] show ?thesis by blast
    qed
  qed
  moreover from assms(1) have "distinct (map fst jr) \<longrightarrow> distinct (map fst jr')"
    unfolding results_from_def by blast
  ultimately show ?thesis unfolding results_from_def by blast
qed

lemma results_from_trans:
  assumes "results_from jr new jr1" and "results_from jr1 new jr'"
  shows "results_from jr new jr'"
proof -
  have "(k, v) \<in> set jr \<or> (\<exists>j. get_rule_name j = k \<and> ready_report new j v)"
    if "(k, v) \<in> set jr'" for k v
  proof -
    from assms(2) that
    have "(k, v) \<in> set jr1 \<or> (\<exists>j. get_rule_name j = k \<and> ready_report new j v)"
      unfolding results_from_def by blast
    then show ?thesis
    proof
      assume "(k, v) \<in> set jr1"
      with assms(1) show ?thesis unfolding results_from_def by blast
    next
      assume "\<exists>j. get_rule_name j = k \<and> ready_report new j v" then show ?thesis ..
    qed
  qed
  moreover from assms have "distinct (map fst jr) \<longrightarrow> distinct (map fst jr')"
    unfolding results_from_def by blast
  ultimately show ?thesis unfolding results_from_def by blast
qed

lemma results_from_fold:
  assumes f: "fold record_status inactive (jr, stop) = (jr1, stop1)"
  shows "results_from jr [Poll jobs (Inr (inactive, active))] jr1"
proof -
  note frs = fold_record_status[OF f]
  have rep: "(j, (''ready'', v)) \<in> set inactive
      \<Longrightarrow> ready_report [Poll jobs (Inr (inactive, active))] j v" for j v
    unfolding ready_report_def by auto
  have "(k, v) \<in> set jr \<or> (\<exists>j. get_rule_name j = k \<and> ready_report [Poll jobs (Inr (inactive, active))] j v)"
    if "(k, v) \<in> set jr1" for k v
    using frs that rep by blast
  moreover have "distinct (map fst jr) \<longrightarrow> distinct (map fst jr1)" using frs by blast
  ultimately show ?thesis unfolding results_from_def by blast
qed

lemma poll_post_exit: "poll_post be [] jr [] (Inr ([], jr, False))"
  by (simp add: poll_post_def results_from_refl)

lemma poll_post_error:
  "e \<noteq> CommError \<Longrightarrow> poll_post be jobs jr [Poll jobs (Inl e)] (Inl e)"
  by (simp add: poll_post_def is_poll_def)

lemma poll_post_retry:
  assumes "poll_post be jobs jr new r"
  shows "poll_post be jobs jr (Poll jobs (Inl e) # new) r"
proof (cases r)
  case (Inl e')
  with assms show ?thesis
    by (simp add: poll_post_def is_poll_def)
next
  case (Inr p)
  obtain jobs' jr' stop where p: "p = (jobs', jr', stop)" by (cases p)
  from assms Inr p have "results_from jr new jr'" by (simp add: poll_post_def)
  then have "results_from jr (Poll jobs (Inl e) # new) jr'"
    by (rule results_from_mono) auto
  with assms Inr p show ?thesis
    by (simp add: poll_post_def is_poll_def)
qed

lemma poll_post_stop:
  assumes f: "fold record_status inactive (jr, False) = (jr1, True)"
    and res: "fst (results be jobs w) = Inr (inactive, active)"
  shows "poll_post be jobs jr [Poll jobs (Inr (inactive, active))] (Inr (active, jr1, True))"
proof -
  have w: "reports_polled be \<longrightarrow> polls_within jobs [Poll jobs (Inr (inactive, active))]"
    using res unfolding reports_polled_def by auto
  show ?thesis
    unfolding poll_post_def using w results_from_fold[OF f, of jobs active]
    by (simp add: is_poll_def)
qed

lemma poll_post_go:
  assumes f: "fold record_status inactive (jr, False) = (jr1, False)"
    and res: "fst (results be jobs w) = Inr (inactive, active)"
    and post: "poll_post be active jr1 new r"
  shows "poll_post be jobs jr (Poll jobs (Inr (inactive, active)) # new) r"
proof -
  let ?p = "Poll jobs (Inr (inactive, active))"
  from post have a: "\<forall>e \<in> set new. is_poll e" "r \<noteq> Inl CommError"
    "reports_polled be \<longrightarrow> polls_within active new"
    by (simp_all add: poll_post_def)
  have w: "reports_polled be \<longrightarrow> polls_within jobs (?p # new)"
  proof
    assume rp: "reports_polled be"
    with res have in1: "fst ` set inactive \<subseteq> set jobs" and in2: "set active \<subseteq> set jobs"
      unfolding reports_polled_def by blast+
    from rp a(3) have "polls_within active new" by blast
    then have "polls_within jobs new" using in2 by (rule polls_within_mono)
    with in1 show "polls_within jobs (?p # new)" by simp
  qed
  have step: "results_from jr (?p # new) jr1"
    using results_from_fold[OF f, of jobs active] by (rule results_from_mono) auto
  show ?thesis
  proof (cases r)
    case (Inl e')
    with a w show ?thesis by (simp add: poll_post_def is_poll_def)
  next
    case (Inr p)
    obtain jobs' jr' stop where p: "p = (jobs', jr', stop)" by (cases p)
    from post Inr p have c: "results_from jr1 new jr'" "\<not> stop \<longrightarrow> jobs' = []"
      by (simp_all add: poll_post_def)
    from c(1) have "results_from jr1 (?p # new) jr'" by (rule results_from_mono) auto
    with step have "results_from jr (?p # new) jr'" by (rule results_from_trans)
    with a w c(2) Inr p show ?thesis by (simp add: poll_post_def is_poll_def)
  qed
qed

lemma poll_jobs_Some:
  "poll_jobs n be jobs jr s = Some (r, s') \<Longrightarrow>
     \<exists>new. trace s' = trace s @ new \<and> poll_post be jobs jr new r"
proof (induction n arbitrary: jobs jr s)
  case 0
  then have "jobs = []" "r = Inr ([], jr, False)" "s' = s" by (auto split: if_splits)
  then show ?case using poll_post_exit[of be jr] by simp
next
  case (Suc n)
  show ?case
  proof (cases "jobs = []")
    case True
    with Suc.prems have "r = Inr ([], jr, False)" "s' = s" by auto
    with True show ?thesis using poll_post_exit[of be jr] by simp
  next
    case False
    obtain resp w where res: "results be jobs (world s) = (resp, w)"
      by (cases "results be jobs (world s)")
    let ?s1 = "emit (Poll jobs resp) w s"
    have tr1: "trace ?s1 = trace s @ [Poll jobs resp]" by (simp add: emit_def)
    show ?thesis
    proof (cases resp)
      case (Inl e)
      show ?thesis
      proof (cases "e = CommError")
        case True
        with Suc.prems False res Inl have "poll_jobs n be jobs jr ?s1 = Some (r, s')" by simp
        from Suc.IH[OF this] obtain new where
          n: "trace s' = trace ?s1 @ new" "poll_post be jobs jr new r" by blast
        from n(1) tr1 Inl have "trace s' = trace s @ Poll jobs (Inl e) # new" by simp
        with poll_post_retry[OF n(2), of e] show ?thesis by blast
      next
        case False
        with Suc.prems \<open>jobs \<noteq> []\<close> res Inl have "r = Inl e" "s' = ?s1" by auto
        with tr1 Inl poll_post_error[OF False, of be jobs jr] show ?thesis by auto
      qed
    next
      case (Inr p)
      obtain inactive active where p: "p = (inactive, active)" by (cases p)
      obtain jr1 stop1 where f: "fold record_status inactive (jr, False) = (jr1, stop1)"
        by (cases "fold record_status inactive (jr, False)")
      have res': "fst (results be jobs (world s)) = Inr (inactive, active)"
        using res Inr p by simp
      show ?thesis
      proof (cases stop1)
        case True
        with Suc.prems False res Inr p f have "r = Inr (active, jr1, True)" "s' = ?s1" by auto
        moreover from f True have "fold record_status inactive (jr, False) = (jr1, True)" by simp
        note poll_post_stop[OF this res']
        ultimately show ?thesis using tr1 Inr p by auto
      next
        case False
        with Suc.prems \<open>jobs \<noteq> []\<close> res Inr p f
        have "poll_jobs n be active jr1 ?s1 = Some (r, s')" by simp
        from Suc.IH[OF this] obtain new where
          n: "trace s' = trace ?s1 @ new" "poll_post be active jr1 new r" by blast
        from n(1) tr1 Inr p have "trace s' = trace s @ Poll jobs (Inr (inactive, active)) # new"
          by simp
        moreover from f False have "fold record_status inactive (jr, False) = (jr1, False)" by simp
        note poll_post_go[OF this res' n(2)]
        ultimately show ?thesis by blast
      qed
    qed
  qed
qed


section \<open>The coordinator\<close>

lemma kill_jobs_cases:
  "kill_jobs be jobs s = (r, s') \<Longrightarrow>
     (jobs = [] \<and> r = Inr () \<and> s' = s)
     \<or> (\<exists>j js. jobs = j # js \<and> r = Inl ConcurrentJobFailed \<and> trace s' = trace s @ [Kill j])"
  by (cases jobs) (auto simp: kill_jobs_def emit_def)


text \<open>A batch that raises: starts of its rules, then polls, then at most one kill.\<close>
lemma run_concurrent_rules_Inl:
  assumes "run_concurrent_rules fuel be G rules bb s = Some (Inl e, s')"
  shows "e \<noteq> CommError
         \<and> (\<exists>starts polls kills. trace s' = trace s @ starts @ polls @ kills
              \<and> (\<forall>ev \<in> set starts. start_of G bb rules ev)
              \<and> (\<forall>ev \<in> set polls. is_poll ev)
              \<and> (kills = [] \<or> (\<exists>j. kills = [Kill j])))"
proof -
  obtain r1 s1 where sr: "start_rules be G bb rules ([], []) s = (r1, s1)"
    by (cases "start_rules be G bb rules ([], []) s")
  show ?thesis
  proof (cases r1)
    case (Inl e1)
    with assms sr have "e = e1" "s' = s1" by (simp_all add: run_concurrent_rules_def)
    with start_rules_Inl[OF sr[unfolded Inl]] obtain new where
      "trace s' = trace s @ new" "\<forall>ev \<in> set new. start_of G bb rules ev" "e \<noteq> CommError"
      by auto
    then show ?thesis
      by (intro conjI exI[of _ new] exI[of _ "[]"]) auto
  next
    case (Inr p)
    obtain jobs ijs0 where p: "p = (jobs, ijs0)" by (cases p)
    from start_rules_Inr[OF sr[unfolded Inr p]] have
      st: "trace s1 = trace s @ map start_event ijs0" "map ij_rule ijs0 = rules"
          "\<forall>ij \<in> set ijs0. resolved_inputs G bb (ij_rule ij) = Some (ij_urls ij)"
      by auto
    have starts: "\<forall>ev \<in> set (map start_event ijs0). start_of G bb rules ev"
      using st(2,3) by (auto simp: start_of_def start_event_def)
    obtain r2 s2 where pj: "poll_jobs fuel be jobs [] s1 = Some (r2, s2)"
      using assms sr Inr p
      by (cases "poll_jobs fuel be jobs [] s1") (auto simp: run_concurrent_rules_def)
    from poll_jobs_Some[OF pj] obtain polls where
      po: "trace s2 = trace s1 @ polls" "poll_post be jobs [] polls r2" by blast
    from po(2) have pp: "\<forall>ev \<in> set polls. is_poll ev" "r2 \<noteq> Inl CommError"
      by (simp_all add: poll_post_def)
    show ?thesis
    proof (cases r2)
      case (Inl e2)
      with assms sr Inr p pj have "e = e2" "s' = s2" by (simp_all add: run_concurrent_rules_def)
      with Inl pp st(1) po(1) starts show ?thesis
        by (intro conjI exI[of _ "map start_event ijs0"] exI[of _ polls] exI[of _ "[]"]) auto
    next
      case r2: (Inr q)
      obtain jobs' jr stop where q: "q = (jobs', jr, stop)" by (cases q)
      from assms sr Inr p pj r2 q have stop: stop
        by (cases stop) (simp_all add: run_concurrent_rules_def)
      obtain r3 s3 where kj: "kill_jobs be jobs' s2 = (r3, s3)" by (cases "kill_jobs be jobs' s2")
      from assms sr Inr p pj r2 q stop kj have "r3 = Inl e" "s' = s3"
        by (cases r3; simp add: run_concurrent_rules_def)+
      with kill_jobs_cases[OF kj] obtain j where
        k: "e = ConcurrentJobFailed" "trace s' = trace s2 @ [Kill j]" by auto
      with pp st(1) po(1) starts show ?thesis
        by (intro conjI exI[of _ "map start_event ijs0"] exI[of _ polls] exI[of _ "[Kill j]"]) auto
    qed
  qed
qed

section \<open>The sequential runner, the blackboard and the purge\<close>


lemma run_sequential_rules_trace:
  "run_sequential_rules be G rules bb s = (r, s') \<Longrightarrow>
     \<exists>new. trace s' = trace s @ new
       \<and> (\<forall>e \<in> set new. start_of G bb rules e \<or> (\<exists>j ok. e = Wait j ok))
       \<and> r \<noteq> Inl CommError"
proof (induction rules arbitrary: s)
  case Nil
  then show ?case by auto
next
  case (Cons rule rest)
  show ?case
  proof (cases "resolve_urls G bb (extract_subrules G rule) []")
    case (Inl e)
    with Cons.prems resolve_urls_Inl[OF Inl] show ?thesis by auto
  next
    case (Inr urls)
    note ri = resolve_urls_resolved[OF Inr]
    obtain r0 s1 where sj: "start_job be rule urls s = (r0, s1)" by (cases "start_job be rule urls s")
    show ?thesis
    proof (cases r0)
      case None
      with Cons.prems Inr sj have "r = Inl (NotEnoughBlobs (name G rule))" "s' = s1" by auto
      with start_job_None[OF sj[unfolded None]] ri show ?thesis
        by (auto simp: start_of_def)
    next
      case (Some p)
      obtain ij j where p: "p = (ij, j)" by (cases p)
      note sjs = start_job_Some[OF sj[unfolded Some p]]
      have so: "start_of G bb (rule # rest) (start_event ij)"
        using sjs ri by (simp add: start_of_def start_event_def)
      obtain ok w where wt: "wait be j (world s1) = (ok, w)" by (cases "wait be j (world s1)")
      let ?s2 = "emit (Wait j ok) w s1"
      have tr2: "trace ?s2 = trace s @ [start_event ij, Wait j ok]"
        using sjs by (simp add: emit_def)
      show ?thesis
      proof (cases ok)
        case False
        with Cons.prems Inr sj Some p wt have "r = Inl (JobError j)" "s' = ?s2" by auto
        with tr2 so show ?thesis by (intro exI[of _ "[start_event ij, Wait j ok]"]) auto
      next
        case True
        with Cons.prems Inr sj Some p wt
        have "run_sequential_rules be G rest bb ?s2 = (r, s')" by simp
        from Cons.IH[OF this] obtain new where
          n: "trace s' = trace ?s2 @ new"
             "\<forall>e \<in> set new. start_of G bb rest e \<or> (\<exists>j ok. e = Wait j ok)"
             "r \<noteq> Inl CommError" by blast
        have "\<forall>e \<in> set new. start_of G bb (rule # rest) e \<or> (\<exists>j ok. e = Wait j ok)"
          using n(2) by (auto intro: start_of_mono)
        with n tr2 so show ?thesis
          by (intro exI[of _ "start_event ij # Wait j ok # new"]) auto
      qed
    qed
  qed
qed

lemma fold_results_trace:
  "fold_results ret bb s = (bb', s') \<Longrightarrow>
     trace s' = trace s @ map write_event ret \<and> world s' = world s
     \<and> bb' = bb ++ map_of (rev ret)"
proof (induction ret arbitrary: bb s)
  case Nil
  then show ?case by simp
next
  case (Cons kv ret)
  obtain k v where kv: "kv = (k, v)" by (cases kv)
  from Cons.prems kv
  have "fold_results ret (bb(k \<mapsto> v)) (emit (Write k v) (world s) s) = (bb', s')" by simp
  from Cons.IH[OF this] have
    ih: "trace s' = trace (emit (Write k v) (world s) s) @ map write_event ret"
        "world s' = world (emit (Write k v) (world s) s)"
        "bb' = bb(k \<mapsto> v) ++ map_of (rev ret)" by blast+
  have "bb(k \<mapsto> v) = bb ++ [k \<mapsto> v]" by simp
  then have "bb(k \<mapsto> v) ++ map_of (rev ret) = bb ++ ([k \<mapsto> v] ++ map_of (rev ret))"
    by (simp only: map_add_assoc)
  also have "[k \<mapsto> v] ++ map_of (rev ret) = map_of (rev ((k, v) # ret))"
    by (simp only: rev.simps map_of_append) simp
  finally have "bb' = bb ++ map_of (rev (kv # ret))" using ih(3) kv by simp
  moreover have "trace s' = trace s @ map write_event (kv # ret)"
    using ih(1) kv by (simp add: emit_def write_event_def)
  moreover have "world s' = world s" using ih(2) by (simp add: emit_def)
  ultimately show ?case by blast
qed

lemma writes_write_events [simp]: "writes (map write_event ret) = ret"
  by (induction ret) (auto simp: write_event_def)



lemma purged_purge_events [simp]: "purged (map purge_event ijs) = map ij_name ijs"
  by (induction ijs) (auto simp: purge_event_def)


section \<open>The readiness evaluator\<close>

lemma subrules_ready_iff:
  "subrules_ready G bb subs \<longleftrightarrow> (\<forall>s \<in> set subs. has_urls bb (name G s))"
  by (induction subs) auto

lemma get_runable_rules_filter:
  "get_runable_rules G rules bb =
     filter (\<lambda>rule. subrules_ready G bb (extract_subrules G rule)) rules"
  by (induction rules) auto

lemma has_urls_iff: "has_urls bb n \<longleftrightarrow> (\<exists>us. bb n = Some us \<and> us \<noteq> [])"
  by (auto simp: has_urls_def split: option.splits)

text \<open>
  C3. The rules that \<open>_get_runable_rules\<close> returns are exactly the candidates all of whose
  direct sub-rules have a non-empty entry on the blackboard: none of the returned rules has
  a sub-rule whose entry is empty or missing, every candidate that meets the condition is
  returned, and a candidate without sub-rules is always returned.
\<close>
theorem get_runable_rules_sound_complete:
  "set (get_runable_rules G rules bb) =
     {rule \<in> set rules.
        \<forall>sub_rule \<in> set (extract_subrules G rule).
          \<exists>us. bb (name G sub_rule) = Some us \<and> us \<noteq> []}
   \<and> (\<forall>rule \<in> set rules.
         extract_subrules G rule = [] \<longrightarrow> rule \<in> set (get_runable_rules G rules bb))"
  by (auto simp: get_runable_rules_filter subrules_ready_iff has_urls_iff)

theorem get_runable_rules_sound_complete_witness:
  "set (get_runable_rules demo_ops [''C'', ''A'']
          [''A'' \<mapsto> [''a1''], ''B'' \<mapsto> [], ''C'' \<mapsto> []]) = {''A''}
   \<and> set (get_runable_rules demo_ops [''C'', ''A'']
          [''A'' \<mapsto> [''a1''], ''B'' \<mapsto> [''b1''], ''C'' \<mapsto> []]) = {''C'', ''A''}"
  using get_runable_rules_sound_complete
          [of demo_ops "[''C'', ''A'']" "[''A'' \<mapsto> [''a1''], ''B'' \<mapsto> [], ''C'' \<mapsto> []]"]
        get_runable_rules_sound_complete
          [of demo_ops "[''C'', ''A'']" "[''A'' \<mapsto> [''a1''], ''B'' \<mapsto> [''b1''], ''C'' \<mapsto> []]"]
  by (auto simp: demo_ops_def)

text \<open>
  C10. The list that \<open>_get_runable_rules\<close> returns is the candidate list filtered by
  readiness, hence a subsequence of the candidate list: the ready rules and no other, in
  the order of the input, each as often as the input has it. A ready rule appears exactly
  once when the candidates have no repetition; a candidate that is repeated and ready is
  repeated in the result.
\<close>
theorem get_runable_rules_subseq:
  "get_runable_rules G rules bb =
     filter (\<lambda>rule. \<forall>sub_rule \<in> set (extract_subrules G rule).
                      \<exists>us. bb (name G sub_rule) = Some us \<and> us \<noteq> []) rules
   \<and> subseq (get_runable_rules G rules bb) rules
   \<and> (\<forall>rule. count_list (get_runable_rules G rules bb) rule =
        (if \<forall>sub_rule \<in> set (extract_subrules G rule).
              \<exists>us. bb (name G sub_rule) = Some us \<and> us \<noteq> []
         then count_list rules rule else 0))
   \<and> (distinct rules \<longrightarrow>
        distinct (get_runable_rules G rules bb)
        \<and> (\<forall>rule \<in> set rules.
              (\<forall>sub_rule \<in> set (extract_subrules G rule).
                 \<exists>us. bb (name G sub_rule) = Some us \<and> us \<noteq> [])
              \<longrightarrow> count_list (get_runable_rules G rules bb) rule = 1))"
proof -
  let ?P = "\<lambda>rule. \<forall>sub_rule \<in> set (extract_subrules G rule).
                      \<exists>us. bb (name G sub_rule) = Some us \<and> us \<noteq> []"
  have eq: "get_runable_rules G rules bb = filter ?P rules"
    by (simp add: get_runable_rules_filter subrules_ready_iff has_urls_iff)
  have cnt: "count_list (filter ?P rules) rule = (if ?P rule then count_list rules rule else 0)"
    for rule
    by (induction rules) auto
  have one: "count_list rules rule = 1" if "distinct rules" "rule \<in> set rules" for rule
    using that by (induction rules) auto
  have sub: "subseq (filter ?P rules) rules" by simp
  have dis: "distinct rules \<longrightarrow> distinct (filter ?P rules)" by simp
  show ?thesis
    unfolding eq using cnt one sub dis by auto
qed

theorem get_runable_rules_subseq_witness:
  "get_runable_rules demo_ops [''B'', ''C'', ''A'', ''D'']
     [''A'' \<mapsto> [''a1''], ''B'' \<mapsto> [], ''C'' \<mapsto> []] = [''B'', ''A'', ''D'']
   \<and> get_runable_rules demo_ops [''B'', ''C'', ''A'', ''D'']
     [''A'' \<mapsto> [''a1''], ''B'' \<mapsto> [''b1''], ''C'' \<mapsto> []] = [''B'', ''C'', ''A'', ''D'']
   \<and> count_list (get_runable_rules demo_ops [''B'', ''C'', ''A'', ''D'']
        [''A'' \<mapsto> [''a1''], ''B'' \<mapsto> [''b1''], ''C'' \<mapsto> []]) ''C'' = 1
   \<and> count_list (get_runable_rules demo_ops [''B'', ''C'', ''A'', ''D'']
        [''A'' \<mapsto> [''a1''], ''B'' \<mapsto> [], ''C'' \<mapsto> []]) ''C'' = 0"
  using get_runable_rules_subseq
          [of demo_ops "[''B'', ''C'', ''A'', ''D'']"
              "[''A'' \<mapsto> [''a1''], ''B'' \<mapsto> [], ''C'' \<mapsto> []]"]
        get_runable_rules_subseq
          [of demo_ops "[''B'', ''C'', ''A'', ''D'']"
              "[''A'' \<mapsto> [''a1''], ''B'' \<mapsto> [''b1''], ''C'' \<mapsto> []]"]
  by (simp add: demo_ops_def has_urls_def)

text \<open>A candidate list that names the ready rule \<open>A\<close> twice: the result has it twice.\<close>
theorem get_runable_rules_repeats:
  "get_runable_rules demo_ops [''A'', ''A''] Map.empty = [''A'', ''A'']
   \<and> count_list (get_runable_rules demo_ops [''A'', ''A''] Map.empty) ''A'' = 2"
  by (simp add: demo_ops_def)


lemma not_poll_Start [simp]: "\<not> is_poll (Start rule urls j)"
  by (simp add: is_poll_def)

lemma resolve_urls_complete:
  "\<forall>sub \<in> set subs. bb (name G sub) \<noteq> None \<Longrightarrow>
     resolve_urls G bb subs urls = Inr (urls @ concat (map (\<lambda>sub. the (bb (name G sub))) subs))"
  by (induction subs arbitrary: urls) auto

lemma resolve_urls_refines:
  "resolve_urls G bb (extract_subrules G rule) [] =
     (case resolved_inputs G bb rule of
        Some urls \<Rightarrow> Inr urls
      | None \<Rightarrow> Inl (KeyError (name G (hd (filter (\<lambda>sub. bb (name G sub) = None)
                                              (extract_subrules G rule))))))"
proof (cases "\<forall>sub \<in> set (extract_subrules G rule). bb (name G sub) \<noteq> None")
  case True
  then show ?thesis
    using resolve_urls_complete[of "extract_subrules G rule" bb G "[]"]
    by (simp add: resolved_inputs_def)
next
  case False
  have "\<exists>sub \<in> set subs. bb (name G sub) = None \<Longrightarrow>
          resolve_urls G bb subs urls =
            Inl (KeyError (name G (hd (filter (\<lambda>sub. bb (name G sub) = None) subs))))"
    for subs urls
    by (induction subs arbitrary: urls) (auto split: option.splits)
  with False show ?thesis by (simp add: resolved_inputs_def)
qed









lemma demo_sequential_ready:
  "run_sequential_rules ready_backend demo_ops [''C''] demo_blackboard
     \<lparr>world = (), trace = []\<rparr>
   = (Inr (), \<lparr>world = (), trace = [Start ''C'' [''a1'', ''b1''] (Some ''C@1''), Wait ''C@1'' True]\<rparr>)"
  by (simp add: ready_backend_def demo_ops_def demo_blackboard_def start_job_def emit_def)


lemma poll_jobs_not_CommError: "poll_jobs n be jobs jr s \<noteq> Some (Inl CommError, s')"
proof
  assume "poll_jobs n be jobs jr s = Some (Inl CommError, s')"
  from poll_jobs_Some[OF this] show False by (auto simp: poll_post_def)
qed

lemma run_concurrent_rules_not_CommError:
  "run_concurrent_rules fuel be G rules bb s \<noteq> Some (Inl CommError, s')"
  using run_concurrent_rules_Inl[of fuel be G rules bb s CommError s'] by blast

lemma batch_loop_not_CommError:
  "batch_loop n fuel be G sub_rules bb ijs s \<noteq> Some (Inl CommError, s')"
proof (induction n arbitrary: sub_rules bb ijs s)
  case 0
  then show ?case by simp
next
  case (Suc n)
  show ?case
  proof (cases "sub_rules = []")
    case True
    then show ?thesis by simp
  next
    case False
    let ?run = "run_concurrent_rules fuel be G (get_runable_rules G sub_rules bb) bb s"
    show ?thesis
    proof (cases ?run)
      case None
      with False show ?thesis by simp
    next
      case (Some p)
      obtain r s1 where p: "p = (r, s1)" by (cases p)
      show ?thesis
      proof (cases r)
        case (Inl e)
        with Some p run_concurrent_rules_not_CommError[of fuel be G _ bb s s1] False
        show ?thesis by auto
      next
        case (Inr q)
        obtain jobs ret where q: "q = (jobs, ret)" by (cases q)
        obtain bb' s2 where f: "fold_results ret bb s1 = (bb', s2)"
          by (cases "fold_results ret bb s1")
        from Some p Inr q f False Suc.IH show ?thesis by simp
      qed
    qed
  qed
qed

lemma execute_rule_not_CommError:
  "execute_rule n fuel be G all_rules w \<noteq> Some (Inl CommError, s')"
proof
  assume a: "execute_rule n fuel be G all_rules w = Some (Inl CommError, s')"
  let ?loop = "batch_loop n fuel be G (sub_rules_of all_rules)
                 (init_blackboard G all_rules Map.empty) [] \<lparr>world = w, trace = []\<rparr>"
  from a obtain r s1 where l: "?loop = Some (r, s1)"
    by (cases ?loop) (auto simp: execute_rule_def)
  show False
  proof (cases r)
    case (Inl e)
    with a l have "e = CommError" "s1 = s'" by (simp_all add: execute_rule_def)
    with l Inl batch_loop_not_CommError[of n fuel be G _ _ "[]" _ s'] show False by simp
  next
    case (Inr q)
    obtain bb ijs where q: "q = (bb, ijs)" by (cases q)
    obtain r2 s2 where sq: "run_sequential_rules be G (parent_of all_rules) bb s1 = (r2, s2)"
      by (cases "run_sequential_rules be G (parent_of all_rules) bb s1")
    from a l Inr q sq have "r2 = Inl CommError"
      by (cases r2) (simp_all add: execute_rule_def)
    with run_sequential_rules_trace[OF sq] show False by blast
  qed
qed

text \<open>
  C5. A CommError raised by a poll is swallowed: the loop goes on with the same jobs and the
  same results, nothing is recorded and no stop is set, and the next iteration polls the
  same job list. Neither the poll loop, nor the coordinator, nor \<open>execute_rule\<close> ever
  returns a CommError.
\<close>
theorem comm_error_is_retried:
  "(jobs \<noteq> [] \<and> results be jobs (world s) = (Inl CommError, w) \<longrightarrow>
      poll_jobs (Suc n) be jobs job_results s
        = poll_jobs n be jobs job_results
            \<lparr>world = w, trace = trace s @ [Poll jobs (Inl CommError)]\<rparr>)
   \<and> poll_jobs n be jobs job_results s \<noteq> Some (Inl CommError, s')
   \<and> run_concurrent_rules fuel be G rule_list bb s \<noteq> Some (Inl CommError, s')
   \<and> execute_rule m fuel be G all_rules w0 \<noteq> Some (Inl CommError, s')"
  by (simp add: emit_def poll_jobs_not_CommError run_concurrent_rules_not_CommError
                execute_rule_not_CommError)

theorem comm_error_is_retried_witness:
  "results (script_backend []) [''A@1''] demo_polls = (Inl CommError, tl demo_polls)
   \<and> poll_jobs (Suc (Suc 0)) (script_backend []) [''A@1''] []
        (\<lparr>world = demo_polls, trace = []\<rparr> :: (string, _) state)
     = Some (Inr ([], [(''A'', [''a1''])], False),
             \<lparr>world = [],
              trace = [Poll [''A@1''] (Inl CommError),
                       Poll [''A@1''] (Inr ([(''A@1'', (''ready'', [''a1'']))], []))]\<rparr>)"
  using comm_error_is_retried
          [of "[''A@1'']" "script_backend []"
              "\<lparr>world = demo_polls, trace = []\<rparr> :: (string, _) state" "tl demo_polls"
              "Suc 0" "[]"]
  by (simp add: demo_polls_def script_backend_def emit_def record_status_def get_rule_name_def)

lemmas run_simps =
  run_concurrent_rules_def script_backend_def demo_ops_def start_job_def emit_def
  record_status_def get_rule_name_def kill_jobs_def

text \<open>
  C1 (evaluation at the failing inputs). A batch of \<open>A\<close> and \<open>B\<close> in which \<open>B\<close> is
  reported dead together with the last results raises nothing and returns the result of
  \<open>A\<close>; \<open>execute_rule\<close> then writes it to the blackboard and runs \<open>C\<close> on it. A batch
  in which \<open>B\<close> is reported dead while \<open>A\<close> and \<open>D\<close> are active raises after killing
  \<open>A\<close> alone.
\<close>
theorem dead_job_batch_returns_results:
  "run_concurrent_rules (Suc 0) (script_backend []) demo_ops [''A'', ''B''] empty_blackboard
     \<lparr>world = [dead_poll], trace = []\<rparr>
   = Some (Inr ([\<lparr>ij_rule = ''A'', ij_urls = [], ij_name = ''A@1''\<rparr>,
                 \<lparr>ij_rule = ''B'', ij_urls = [], ij_name = ''B@1''\<rparr>],
                [(''A'', [''a1''])]),
           \<lparr>world = [],
            trace = [Start ''A'' [] (Some ''A@1''), Start ''B'' [] (Some ''B@1''),
                     Poll [''A@1'', ''B@1''] dead_poll]\<rparr>)
   \<and> execute_rule (Suc 0) (Suc 0) (script_backend []) demo_ops [''A'', ''B'', ''C''] [dead_poll]
   = Some (Inr (),
           \<lparr>world = [],
            trace = [Start ''A'' [] (Some ''A@1''), Start ''B'' [] (Some ''B@1''),
                     Poll [''A@1'', ''B@1''] dead_poll,
                     Write ''A'' [''a1''],
                     Start ''C'' [''a1''] (Some ''C@1''), Wait ''C@1'' True,
                     Purge ''A@1'', Purge ''B@1'']\<rparr>)
   \<and> run_concurrent_rules (Suc 0) (script_backend []) demo_ops [''A'', ''B'', ''D'']
       empty_blackboard \<lparr>world = [dead_poll_active], trace = []\<rparr>
   = Some (Inl ConcurrentJobFailed,
           \<lparr>world = [],
            trace = [Start ''A'' [] (Some ''A@1''), Start ''B'' [] (Some ''B@1''),
                     Start ''D'' [] (Some ''D@1''),
                     Poll [''A@1'', ''B@1'', ''D@1''] dead_poll_active,
                     Kill ''A@1'']\<rparr>)"
proof (intro conjI)
  show "run_concurrent_rules (Suc 0) (script_backend []) demo_ops [''A'', ''B''] empty_blackboard
     \<lparr>world = [dead_poll], trace = []\<rparr>
   = Some (Inr ([\<lparr>ij_rule = ''A'', ij_urls = [], ij_name = ''A@1''\<rparr>,
                 \<lparr>ij_rule = ''B'', ij_urls = [], ij_name = ''B@1''\<rparr>],
                [(''A'', [''a1''])]),
           \<lparr>world = [],
            trace = [Start ''A'' [] (Some ''A@1''), Start ''B'' [] (Some ''B@1''),
                     Poll [''A@1'', ''B@1''] dead_poll]\<rparr>)"
    by (simp add: run_simps empty_blackboard_def dead_poll_def)
  show "execute_rule (Suc 0) (Suc 0) (script_backend []) demo_ops [''A'', ''B'', ''C''] [dead_poll]
   = Some (Inr (),
           \<lparr>world = [],
            trace = [Start ''A'' [] (Some ''A@1''), Start ''B'' [] (Some ''B@1''),
                     Poll [''A@1'', ''B@1''] dead_poll,
                     Write ''A'' [''a1''],
                     Start ''C'' [''a1''] (Some ''C@1''), Wait ''C@1'' True,
                     Purge ''A@1'', Purge ''B@1'']\<rparr>)"
    by (simp add: execute_rule_def sub_rules_of_def parent_of_def has_urls_def run_simps
                  dead_poll_def)
  show "run_concurrent_rules (Suc 0) (script_backend []) demo_ops [''A'', ''B'', ''D'']
       empty_blackboard \<lparr>world = [dead_poll_active], trace = []\<rparr>
   = Some (Inl ConcurrentJobFailed,
           \<lparr>world = [],
            trace = [Start ''A'' [] (Some ''A@1''), Start ''B'' [] (Some ''B@1''),
                     Start ''D'' [] (Some ''D@1''),
                     Poll [''A@1'', ''B@1'', ''D@1''] dead_poll_active,
                     Kill ''A@1'']\<rparr>)"
    by (simp add: run_simps empty_blackboard_def dead_poll_active_def)
qed

text \<open>
  C2 (evaluation at the failing input). \<open>A\<close> starts, \<open>B\<close> does not: the coordinator
  raises the error that names \<open>B\<close>, returns no results, and leaves the job of \<open>A\<close>
  running: the trace ends with the failed start, without a kill.
\<close>
theorem failed_start_leaves_jobs_running:
  "run_concurrent_rules fuel (script_backend [''B'']) demo_ops [''A'', ''B''] empty_blackboard
     \<lparr>world = w, trace = []\<rparr>
   = Some (Inl (NotEnoughBlobs ''B''),
           \<lparr>world = w, trace = [Start ''A'' [] (Some ''A@1''), Start ''B'' [] None]\<rparr>)
   \<and> killed [Start ''A'' [] (Some ''A@1''), Start ''B'' [] None] = []"
  by (simp add: run_simps empty_blackboard_def)

text \<open>
  One iteration of the loop \<open>while sub_rules\<close> whose batch returned: the InfernoJobs of
  the batch, the polls of its poll loop, and the results it returned.
\<close>
section \<open>The loop over the batches\<close>

lemma jobs_started_append [simp]: "jobs_started (xs @ ys) = jobs_started xs @ jobs_started ys"
  by (induction xs rule: jobs_started.induct) auto

lemma jobs_started_start_events [simp]: "jobs_started (map start_event ijs) = map ij_name ijs"
  by (induction ijs) (auto simp: start_event_def)


lemma jobs_started_write_events [simp]: "jobs_started (map write_event ret) = []"
  by (induction ret) (auto simp: write_event_def)

lemma writes_start_events [simp]: "writes (map start_event ijs) = []"
  by (induction ijs) (auto simp: start_event_def)



lemma run_concurrent_rules_empty:
  "run_concurrent_rules fuel be G [] bb s = Some (Inr ([], []), s)"
  by (cases fuel) (simp_all add: run_concurrent_rules_def)





text \<open>One poll: \<open>A\<close> and \<open>B\<close> are ready, no job is active any more.\<close>
section \<open>The whole run\<close>












section \<open>Runs on a cooperative cluster\<close>

lemma has_urls_Some: "has_urls bb k \<Longrightarrow> bb k \<noteq> None"
  by (simp add: has_urls_def split: option.splits)

lemma cooperative_start:
  "cooperative be G rules \<Longrightarrow> rule \<in> set rules \<Longrightarrow>
     \<exists>j. fst (start be rule urls w) = Some j \<and> get_rule_name j = name G rule"
  by (simp add: cooperative_def)

lemma cooperative_results:
  "cooperative be G rules \<Longrightarrow>
     \<exists>inactive. fst (results be jobs w) = Inr (inactive, []) \<and> map fst inactive = jobs
        \<and> (\<forall>js \<in> set inactive. fst (snd js) = ''ready'' \<and> snd (snd js) \<noteq> [])"
  by (simp add: cooperative_def)


lemma cooperative_mono:
  "cooperative be G rules \<Longrightarrow> set rules' \<subseteq> set rules \<Longrightarrow> cooperative be G rules'"
  by (simp add: cooperative_def subset_iff)

lemma start_rules_succeeds_on:
  assumes "\<forall>rule \<in> set rules. resolved_inputs G bb rule \<noteq> None"
    and "\<forall>rule \<in> set rules. \<forall>urls w. fst (start be rule urls w) \<noteq> None"
  shows "\<exists>jobs' ijs' s'. start_rules be G bb rules acc s = (Inr (jobs', ijs'), s')"
  using assms
proof (induction rules arbitrary: acc s)
  case Nil
  then show ?case by (cases acc) simp
next
  case (Cons rule rest)
  obtain jobs ijs where acc: "acc = (jobs, ijs)" by (cases acc)
  from Cons.prems(1) obtain urls where "resolved_inputs G bb rule = Some urls" by auto
  then have ru: "resolve_urls G bb (extract_subrules G rule) [] = Inr urls"
    by (simp add: resolve_urls_refines)
  obtain q w where st: "start be rule urls (world s) = (q, w)"
    by (cases "start be rule urls (world s)")
  from Cons.prems(2) have "fst (start be rule urls (world s)) \<noteq> None" by simp
  with st obtain j where q: "q = Some j" by (cases q) auto
  from Cons.prems have "\<forall>rule \<in> set rest. resolved_inputs G bb rule \<noteq> None"
    "\<forall>rule \<in> set rest. \<forall>urls w. fst (start be rule urls w) \<noteq> None" by simp_all
  from Cons.IH[OF this] show ?case
    using acc ru st q by (simp add: start_job_def)
qed

lemma poll_jobs_empty: "poll_jobs fuel be [] jr s = Some (Inr ([], jr, False), s)"
  by (cases fuel) simp_all

lemma fold_record_status_keys:
  "fold record_status inactive (jr, stop) = (jr', stop') \<Longrightarrow>
     \<forall>js \<in> set inactive. fst (snd js) = ''ready'' \<Longrightarrow>
     fst ` set jr' = fst ` set jr \<union> get_rule_name ` fst ` set inactive"
proof (induction inactive arbitrary: jr stop)
  case Nil
  then show ?case by simp
next
  case (Cons x inactive)
  obtain j st v where x: "x = (j, (st, v))" by (cases x) auto
  with Cons.prems(2) have st: "st = ''ready''" by simp
  have "record_status x (jr, stop) = (AList.update (get_rule_name j) v jr, stop)"
    using x st by (simp add: record_status_def)
  with Cons.prems(1)
  have f: "fold record_status inactive (AList.update (get_rule_name j) v jr, stop) = (jr', stop')"
    by simp
  from Cons.prems(2) have "\<forall>js \<in> set inactive. fst (snd js) = ''ready''" by simp
  from Cons.IH[OF f this] x show ?case by (auto simp: dom_update)
qed

text \<open>The poll loop on a cluster that reports every polled job ready at once.\<close>
lemma poll_jobs_ready:
  assumes res: "fst (results be jobs (world s)) = Inr (inactive, [])"
    and ready: "\<forall>js \<in> set inactive. fst (snd js) = ''ready'' \<and> snd (snd js) \<noteq> []"
    and names: "map fst inactive = jobs"
  shows "\<exists>jr s'. poll_jobs (Suc fuel) be jobs [] s = Some (Inr ([], jr, False), s')
           \<and> fst ` set jr = get_rule_name ` set jobs \<and> (\<forall>kv \<in> set jr. snd kv \<noteq> [])"
proof (cases "jobs = []")
  case True
  then show ?thesis by simp
next
  case False
  obtain r w where rs: "results be jobs (world s) = (r, w)"
    by (cases "results be jobs (world s)")
  with res have r: "r = Inr (inactive, [])" by simp
  obtain jr stop where f: "fold record_status inactive ([], False) = (jr, stop)"
    by (cases "fold record_status inactive ([], False)")
  from ready have rd: "\<forall>js \<in> set inactive. fst (snd js) = ''ready''" by simp
  note frs = fold_record_status[OF f]
  from frs have frs2: "\<forall>(k, v) \<in> set jr. (k, v) \<in> set [] \<or>
           (\<exists>j. (j, (''ready'', v)) \<in> set inactive \<and> get_rule_name j = k)"
    and frs3: "stop \<longleftrightarrow> False \<or> (\<exists>j v. (j, (''dead'', v)) \<in> set inactive)"
    by simp_all
  have "\<not> stop"
  proof
    assume stop
    with frs3 obtain j v where "(j, (''dead'', v)) \<in> set inactive" by auto
    with rd have "fst (snd (j, (''dead'', v))) = ''ready''" by (rule bspec)
    then show False by simp
  qed
  have "set jobs = fst ` set inactive" using names[symmetric] by simp
  then have keys: "fst ` set jr = get_rule_name ` set jobs"
    using fold_record_status_keys[OF f rd] by simp
  have vals: "\<forall>kv \<in> set jr. snd kv \<noteq> []"
  proof
    fix kv assume kv: "kv \<in> set jr"
    obtain k v where kvp: "kv = (k, v)" by (cases kv)
    from frs2 kv kvp have "\<exists>j. (j, (''ready'', v)) \<in> set inactive \<and> get_rule_name j = k"
      by auto
    then obtain j where "(j, (''ready'', v)) \<in> set inactive" by blast
    with ready have "snd (snd (j, (''ready'', v))) \<noteq> []" by blast
    with kvp show "snd kv \<noteq> []" by simp
  qed
  from False rs r f \<open>\<not> stop\<close>
  have "poll_jobs (Suc fuel) be jobs [] s
          = Some (Inr ([], jr, False), emit (Poll jobs (Inr (inactive, []))) w s)"
    by (simp add: poll_jobs_empty)
  with keys vals show ?thesis by blast
qed

text \<open>A batch of ready rules on a cooperative cluster returns a result for every rule.\<close>
lemma cooperative_batch:
  assumes coop: "cooperative be G rules"
    and ready: "\<forall>rule \<in> set rules. subrules_ready G bb (extract_subrules G rule)"
  shows "\<exists>jobs ret s1.
           run_concurrent_rules (Suc fuel) be G rules bb s = Some (Inr (jobs, ret), s1)
           \<and> fst ` set ret = name G ` set rules \<and> (\<forall>kv \<in> set ret. snd kv \<noteq> [])"
proof -
  have res: "\<forall>rule \<in> set rules. resolved_inputs G bb rule \<noteq> None"
  proof
    fix rule assume "rule \<in> set rules"
    with ready have "\<forall>sub \<in> set (extract_subrules G rule). has_urls bb (name G sub)"
      by (simp add: subrules_ready_iff)
    then have "\<forall>sub \<in> set (extract_subrules G rule). bb (name G sub) \<noteq> None"
      using has_urls_Some[of bb] by blast
    then show "resolved_inputs G bb rule \<noteq> None" by (simp add: resolved_inputs_def)
  qed
  have st: "\<forall>rule \<in> set rules. \<forall>urls w. fst (start be rule urls w) \<noteq> None"
  proof (intro ballI allI)
    fix rule urls w assume "rule \<in> set rules"
    from cooperative_start[OF coop this, of urls w]
    show "fst (start be rule urls w) \<noteq> None" by auto
  qed
  from start_rules_succeeds_on[OF res st, of "([], [])" s] obtain jobs ijs s1 where
    sr: "start_rules be G bb rules ([], []) s = (Inr (jobs, ijs), s1)" by blast
  from start_rules_Inr[OF sr] have
    n: "jobs = map ij_name ijs" "map ij_rule ijs = rules"
       "\<forall>ij \<in> set ijs. \<exists>w. fst (start be (ij_rule ij) (ij_urls ij) w) = Some (ij_name ij)"
    by auto
  have nm: "get_rule_name (ij_name ij) = name G (ij_rule ij)" if "ij \<in> set ijs" for ij
  proof -
    from n(3) that obtain w where
      w: "fst (start be (ij_rule ij) (ij_urls ij) w) = Some (ij_name ij)" by blast
    from that n(2) have "ij_rule ij \<in> set rules" by auto
    from cooperative_start[OF coop this, of "ij_urls ij" w] obtain j where
      "fst (start be (ij_rule ij) (ij_urls ij) w) = Some j" "get_rule_name j = name G (ij_rule ij)"
      by blast
    with w show ?thesis by simp
  qed
  have names: "get_rule_name ` set jobs = name G ` set rules"
  proof -
    have "map get_rule_name jobs = map (name G) (map ij_rule ijs)"
      using nm n(1) by simp
    then have "set (map get_rule_name jobs) = set (map (name G) rules)" using n(2) by simp
    then show ?thesis by simp
  qed
  from cooperative_results[OF coop, of jobs "world s1"] obtain inactive where
    i: "fst (results be jobs (world s1)) = Inr (inactive, [])" "map fst inactive = jobs"
       "\<forall>js \<in> set inactive. fst (snd js) = ''ready'' \<and> snd (snd js) \<noteq> []"
    by blast
  from poll_jobs_ready[OF i(1) i(3) i(2), of fuel] obtain jr s2 where
    p: "poll_jobs (Suc fuel) be jobs [] s1 = Some (Inr ([], jr, False), s2)"
       "fst ` set jr = get_rule_name ` set jobs" "\<forall>kv \<in> set jr. snd kv \<noteq> []" by blast
  from sr p(1)
  have run: "run_concurrent_rules (Suc fuel) be G rules bb s = Some (Inr (ijs, jr), s2)"
    by (simp add: run_concurrent_rules_def)
  from p(2) names have keys: "fst ` set jr = name G ` set rules" by simp
  from run keys p(3) show ?thesis by (intro exI conjI)
qed

lemma has_urls_results:
  assumes "\<forall>kv \<in> set ret. snd kv \<noteq> []"
  shows "has_urls (bb ++ map_of (rev ret)) k \<longleftrightarrow>
           k \<in> fst ` set ret \<or> has_urls bb k"
proof (cases "map_of (rev ret) k")
  case None
  then have "k \<notin> fst ` set ret" by (simp add: map_of_eq_None_iff)
  with None show ?thesis by (simp add: has_urls_def map_add_def)
next
  case (Some v)
  then have "(k, v) \<in> set ret" using map_of_SomeD[of "rev ret" k v] by simp
  with assms have "v \<noteq> []" "k \<in> fst ` set ret" by force+
  with Some show ?thesis by (simp add: has_urls_def map_add_def)
qed

lemma least_rank:
  "xs \<noteq> [] \<Longrightarrow> \<exists>m \<in> set xs. \<forall>y \<in> set xs. rank m \<le> (rank y :: nat)"
proof (induction xs)
  case Nil
  then show ?case by simp
next
  case (Cons x xs)
  show ?case
  proof (cases "xs = []")
    case True
    then show ?thesis by simp
  next
    case False
    from Cons.IH[OF this] obtain m where m: "m \<in> set xs" "\<forall>y \<in> set xs. rank m \<le> rank y"
      by blast
    show ?thesis
    proof (cases "rank x \<le> rank m")
      case True
      with m(2) have "\<forall>y \<in> set (x # xs). rank x \<le> rank y" by auto
      then show ?thesis by auto
    next
      case False
      with m have "\<forall>y \<in> set (x # xs). rank m \<le> rank y" by auto
      with m(1) show ?thesis by auto
    qed
  qed
qed

text \<open>
  On a cooperative cluster the loop over the batches returns when every pending rule has
  its sub-rules pending or done, and a rank decreases from a rule to its sub-rules: some
  pending rule is ready in every iteration.
\<close>
lemma batch_loop_returns:
  assumes coop: "cooperative be G all_rules"
  shows "set subs \<subseteq> set all_rules \<Longrightarrow>
     \<forall>rule \<in> set subs. \<forall>sub_rule \<in> set (extract_subrules G rule).
        (sub_rule \<in> set subs \<or> has_urls bb (name G sub_rule)) \<and> rank sub_rule < (rank rule :: nat) \<Longrightarrow>
     length subs \<le> n \<Longrightarrow>
     \<exists>bb' ijs' s'. batch_loop n (Suc fuel) be G subs bb ijs s = Some (Inr (bb', ijs'), s')
        \<and> (\<forall>x. x \<in> set subs \<or> has_urls bb (name G x) \<longrightarrow> has_urls bb' (name G x))"
proof (induction n arbitrary: subs bb ijs s)
  case 0
  then show ?case by simp
next
  case (Suc n)
  show ?case
  proof (cases "subs = []")
    case True
    then show ?thesis by simp
  next
    case False
    let ?run = "get_runable_rules G subs bb"
    let ?rest = "filter (\<lambda>rule. rule \<notin> set ?run) subs"
    have run_set: "set ?run = {rule \<in> set subs. subrules_ready G bb (extract_subrules G rule)}"
      by (auto simp: get_runable_rules_filter)
    from least_rank[OF False, of rank] obtain m where
      m: "m \<in> set subs" "\<forall>y \<in> set subs. rank m \<le> rank y" by blast
    have "subrules_ready G bb (extract_subrules G m)"
      unfolding subrules_ready_iff
    proof
      fix sub assume sub: "sub \<in> set (extract_subrules G m)"
      with Suc.prems(2) m(1) have
        "(sub \<in> set subs \<or> has_urls bb (name G sub)) \<and> rank sub < rank m" by blast
      with m(2) show "has_urls bb (name G sub)" by fastforce
    qed
    with m(1) run_set have m_run: "m \<in> set ?run" by simp
    have coop_run: "cooperative be G ?run"
      using cooperative_mono[OF coop] run_set Suc.prems(1) by blast
    have "\<forall>rule \<in> set ?run. subrules_ready G bb (extract_subrules G rule)"
      using run_set by simp
    from cooperative_batch[OF coop_run this, of fuel s] obtain jobs ret s1 where
      rc: "run_concurrent_rules (Suc fuel) be G ?run bb s = Some (Inr (jobs, ret), s1)"
          "fst ` set ret = name G ` set ?run" "\<forall>kv \<in> set ret. snd kv \<noteq> []" by blast
    obtain bb1 s2 where f: "fold_results ret bb s1 = (bb1, s2)"
      by (cases "fold_results ret bb s1")
    from fold_results_trace[OF f] have bb1: "bb1 = bb ++ map_of (rev ret)" by simp
    have hu: "has_urls bb1 k \<longleftrightarrow> k \<in> name G ` set ?run \<or> has_urls bb k" for k
      unfolding bb1 using has_urls_results[OF rc(3), of bb k] rc(2) by simp
    have rest_sub: "set ?rest \<subseteq> set all_rules" using Suc.prems(1) by auto
    have rest_inv: "\<forall>rule \<in> set ?rest. \<forall>sub_rule \<in> set (extract_subrules G rule).
        (sub_rule \<in> set ?rest \<or> has_urls bb1 (name G sub_rule)) \<and> rank sub_rule < rank rule"
    proof (intro ballI)
      fix rule sub assume r: "rule \<in> set ?rest" and s: "sub \<in> set (extract_subrules G rule)"
      from r have "rule \<in> set subs" by simp
      with Suc.prems(2) s have
        h: "(sub \<in> set subs \<or> has_urls bb (name G sub)) \<and> rank sub < rank rule" by blast
      have "sub \<in> set ?rest \<or> has_urls bb1 (name G sub)"
      proof (cases "sub \<in> set ?run")
        case True
        then show ?thesis by (simp add: hu)
      next
        case False
        with h show ?thesis by (auto simp: hu)
      qed
      with h show "(sub \<in> set ?rest \<or> has_urls bb1 (name G sub)) \<and> rank sub < rank rule"
        by simp
    qed
    have "length ?rest < length subs"
      using m(1) m_run by (intro length_filter_less[of m]) auto
    with Suc.prems(3) have rest_len: "length ?rest \<le> n" by simp
    from Suc.IH[OF rest_sub rest_inv rest_len, of "ijs @ jobs" s2] obtain bb' ijs' s' where
      ih: "batch_loop n (Suc fuel) be G ?rest bb1 (ijs @ jobs) s2 = Some (Inr (bb', ijs'), s')"
          "\<forall>x. x \<in> set ?rest \<or> has_urls bb1 (name G x) \<longrightarrow> has_urls bb' (name G x)" by blast
    from False rc(1) f ih(1)
    have loop: "batch_loop (Suc n) (Suc fuel) be G subs bb ijs s = Some (Inr (bb', ijs'), s')"
      by simp
    have post: "has_urls bb' (name G x)" if "x \<in> set subs \<or> has_urls bb (name G x)" for x
    proof -
      have "x \<in> set ?rest \<or> has_urls bb1 (name G x)"
      proof (cases "x \<in> set ?run")
        case True
        then show ?thesis by (simp add: hu)
      next
        case False
        with that show ?thesis by (auto simp: hu)
      qed
      with ih(2) show ?thesis by blast
    qed
    from loop post show ?thesis by blast
  qed
qed


text \<open>
  A graph in which the rule \<open>S\<close> is shared: it is the sub-rule of \<open>P\<close> and of \<open>Q\<close>,
  which are the sub-rules of the terminal rule \<open>T\<close>.
\<close>
section \<open>Every rule runs once\<close>

lemma started_purges [simp]: "started (map Purge js) = []"
  by (induction js) simp_all

lemma started_purges_of [simp]: "started (map (Purge \<circ> f) xs) = []"
  by (induction xs) simp_all









text \<open>
  The variables of the loop \<open>while sub_rules\<close>: \<open>sub_rules\<close>, \<open>urls_blackboard\<close>,
  \<open>inferno_jobs\<close>, and the state of the cluster with the trace.
\<close>
text \<open>
  The variables with which the loop enters its iteration number \<open>k\<close>, counted from 0;
  there are none when the loop has ended before.
\<close>
section \<open>Termination of the loop over the batches\<close>

lemma poll_jobs_mono:
  "poll_jobs f be jobs jr s = Some r \<Longrightarrow> poll_jobs (f + m) be jobs jr s = Some r"
proof (induction f arbitrary: jobs jr s)
  case 0
  then have "jobs = []" "r = (Inr ([], jr, False), s)" by (auto split: if_splits)
  then show ?case by (simp add: poll_jobs_empty)
next
  case (Suc f)
  show ?case
  proof (cases "jobs = []")
    case True
    with Suc.prems show ?thesis by simp
  next
    case False
    obtain x w where rs: "results be jobs (world s) = (x, w)"
      by (cases "results be jobs (world s)")
    show ?thesis
    proof (cases x)
      case (Inl e)
      show ?thesis
      proof (cases "e = CommError")
        case True
        with Suc.prems False rs Inl
        have "poll_jobs f be jobs jr (emit (Poll jobs (Inl e)) w s) = Some r" by simp
        from Suc.IH[OF this] False rs Inl True show ?thesis by simp
      next
        case ne: False
        with Suc.prems False rs Inl show ?thesis by simp
      qed
    next
      case (Inr p)
      obtain inactive active where p: "p = (inactive, active)" by (cases p)
      obtain jr' stop where fr: "fold record_status inactive (jr, False) = (jr', stop)"
        by (cases "fold record_status inactive (jr, False)")
      show ?thesis
      proof (cases stop)
        case True
        with Suc.prems False rs Inr p fr show ?thesis by simp
      next
        case ns: False
        with Suc.prems False rs Inr p fr
        have "poll_jobs f be active jr' (emit (Poll jobs (Inr (inactive, active))) w s) = Some r"
          by simp
        from Suc.IH[OF this] False rs Inr p fr ns show ?thesis by simp
      qed
    qed
  qed
qed

lemma run_concurrent_rules_mono:
  assumes "run_concurrent_rules f be G rules bb s = Some r"
  shows "run_concurrent_rules (f + m) be G rules bb s = Some r"
proof -
  obtain r1 s1 where sr: "start_rules be G bb rules ([], []) s = (r1, s1)"
    by (cases "start_rules be G bb rules ([], []) s")
  show ?thesis
  proof (cases r1)
    case (Inl e)
    with assms sr show ?thesis by (simp add: run_concurrent_rules_def)
  next
    case (Inr p)
    obtain jobs ijs where p: "p = (jobs, ijs)" by (cases p)
    from assms sr Inr p obtain q where pj: "poll_jobs f be jobs [] s1 = Some q"
      by (cases "poll_jobs f be jobs [] s1") (auto simp: run_concurrent_rules_def)
    from poll_jobs_mono[OF pj, of m] have "poll_jobs (f + m) be jobs [] s1 = Some q" .
    with assms sr Inr p pj show ?thesis by (simp add: run_concurrent_rules_def)
  qed
qed

text \<open>A loop that has returned within some bounds returns the same within larger bounds.\<close>
lemma batch_loop_mono:
  "batch_loop n f be G subs bb ijs s = Some r \<Longrightarrow>
     batch_loop (n + k) (f + m) be G subs bb ijs s = Some r"
proof (induction n arbitrary: subs bb ijs s)
  case 0
  then have "subs = []" "r = (Inr (bb, ijs), s)" by (auto split: if_splits)
  then show ?case by (cases k) simp_all
next
  case (Suc n)
  show ?case
  proof (cases "subs = []")
    case True
    with Suc.prems show ?thesis by simp
  next
    case False
    let ?run = "get_runable_rules G subs bb"
    from Suc.prems False obtain p where
      rc: "run_concurrent_rules f be G ?run bb s = Some p"
      by (cases "run_concurrent_rules f be G ?run bb s") auto
    note rc' = run_concurrent_rules_mono[OF rc, of m]
    obtain x s1 where p: "p = (x, s1)" by (cases p)
    show ?thesis
    proof (cases x)
      case (Inl e)
      with Suc.prems False rc rc' p show ?thesis by simp
    next
      case (Inr q)
      obtain jobs ret where q: "q = (jobs, ret)" by (cases q)
      obtain bb1 s2 where fo: "fold_results ret bb s1 = (bb1, s2)"
        by (cases "fold_results ret bb s1")
      from Suc.prems False rc p Inr q fo
      have "batch_loop n f be G (filter (\<lambda>rule. rule \<notin> set ?run) subs) bb1 (ijs @ jobs) s2
              = Some r" by simp
      from Suc.IH[OF this] False rc' p Inr q fo show ?thesis by simp
    qed
  qed
qed

lemma loop_body_mono:
  assumes "loop_body f be G st = Some st'"
  shows "loop_body (f + m) be G st = Some st'"
proof -
  obtain subs bb ijs s where st: "st = (subs, bb, ijs, s)" by (cases st)
  from assms st obtain p where
    rc: "run_concurrent_rules f be G (get_runable_rules G subs bb) bb s = Some p"
    by (cases "run_concurrent_rules f be G (get_runable_rules G subs bb) bb s")
       (auto simp: loop_body_def)
  from run_concurrent_rules_mono[OF rc, of m] assms st rc show ?thesis
    by (simp add: loop_body_def)
qed

lemma iteration_mono:
  "iteration k f be G st = Some st' \<Longrightarrow> iteration k (f + m) be G st = Some st'"
proof (induction k arbitrary: st)
  case 0
  then show ?case by simp
next
  case (Suc k)
  from Suc.prems have ne: "fst st \<noteq> []" by (auto split: if_splits)
  with Suc.prems obtain st1 where lb: "loop_body f be G st = Some st1"
    by (cases "loop_body f be G st") auto
  with Suc.prems ne have "iteration k f be G st1 = Some st'" by simp
  from Suc.IH[OF this] loop_body_mono[OF lb, of m] ne show ?case by simp
qed

text \<open>A pass through the body is an unfolding of the loop.\<close>
lemma batch_loop_body:
  assumes "subs \<noteq> []" and "loop_body f be G (subs, bb, ijs, s) = Some (subs', bb', ijs', s')"
  shows "batch_loop (Suc n) f be G subs bb ijs s = batch_loop n f be G subs' bb' ijs' s'"
proof -
  let ?run = "get_runable_rules G subs bb"
  from assms(2) obtain p where rc: "run_concurrent_rules f be G ?run bb s = Some p"
    by (cases "run_concurrent_rules f be G ?run bb s") (auto simp: loop_body_def)
  obtain x s1 where p: "p = (x, s1)" by (cases p)
  from assms(2) rc p obtain q where x: "x = Inr q" by (cases x) (auto simp: loop_body_def)
  obtain jobs ret where q: "q = (jobs, ret)" by (cases q)
  obtain bb1 s2 where fo: "fold_results ret bb s1 = (bb1, s2)"
    by (cases "fold_results ret bb s1")
  from assms(2) rc p x q fo have
    "subs' = filter (\<lambda>rule. rule \<notin> set ?run) subs" "bb' = bb1" "ijs' = ijs @ jobs" "s' = s2"
    by (simp_all add: loop_body_def)
  with assms(1) rc p x q fo show ?thesis by simp
qed

text \<open>The loop continues from the variables with which it enters an iteration.\<close>
lemma batch_loop_iteration:
  "iteration k f be G (subs, bb, ijs, s) = Some (subs', bb', ijs', s') \<Longrightarrow>
     batch_loop (k + n) f be G subs bb ijs s = batch_loop n f be G subs' bb' ijs' s'"
proof (induction k arbitrary: subs bb ijs s)
  case 0
  then show ?case by (auto split: if_splits)
next
  case (Suc k)
  from Suc.prems have ne: "subs \<noteq> []" by (auto split: if_splits)
  with Suc.prems obtain st1 where lb: "loop_body f be G (subs, bb, ijs, s) = Some st1"
    by (cases "loop_body f be G (subs, bb, ijs, s)") auto
  obtain subs1 bb1 ijs1 s1 where st1: "st1 = (subs1, bb1, ijs1, s1)" by (cases st1)
  from Suc.prems ne lb st1
  have "iteration k f be G (subs1, bb1, ijs1, s1) = Some (subs', bb', ijs', s')" by simp
  from Suc.IH[OF this] batch_loop_body[OF ne lb[unfolded st1], of "k + n"]
  show ?case by simp
qed

text \<open>An iteration without a ready rule leaves every variable as it is.\<close>
lemma loop_body_stuck:
  "get_runable_rules G subs bb = [] \<Longrightarrow>
     loop_body f be G (subs, bb, ijs, s) = Some (subs, bb, ijs, s)"
  by (simp add: loop_body_def run_concurrent_rules_empty)

lemma batch_loop_stuck:
  "subs \<noteq> [] \<Longrightarrow> get_runable_rules G subs bb = [] \<Longrightarrow>
     batch_loop n f be G subs bb ijs s = None"
proof (induction n)
  case 0
  then show ?case by simp
next
  case (Suc n)
  from batch_loop_body[OF Suc.prems(1) loop_body_stuck[OF Suc.prems(2)], of n f be ijs s]
       Suc.IH[OF Suc.prems]
  show ?case by simp
qed

text \<open>When an iteration finds no ready rule, the loop returns within no bounds.\<close>
lemma batch_loop_never_returns:
  assumes it: "iteration k f be G (subs, bb, ijs, s) = Some (subs', bb', ijs', s')"
    and stuck: "get_runable_rules G subs' bb' = []"
  shows "batch_loop n f' be G subs bb ijs s = None"
proof (rule ccontr)
  assume "batch_loop n f' be G subs bb ijs s \<noteq> None"
  then obtain r where r: "batch_loop n f' be G subs bb ijs s = Some r" by auto
  from it have ne: "subs' \<noteq> []"
  proof (induction k arbitrary: subs bb ijs s)
    case 0
    then show ?case by (auto split: if_splits)
  next
    case (Suc k)
    from Suc.prems have "subs \<noteq> []" by (auto split: if_splits)
    with Suc.prems obtain st1 where lb: "loop_body f be G (subs, bb, ijs, s) = Some st1"
      and i: "iteration k f be G st1 = Some (subs', bb', ijs', s')"
      by (cases "loop_body f be G (subs, bb, ijs, s)") auto
    obtain subs1 bb1 ijs1 s1 where "st1 = (subs1, bb1, ijs1, s1)" by (cases st1)
    with i Suc.IH show ?case by blast
  qed
  from batch_loop_mono[OF r, of k f] have a: "batch_loop (n + k) (f' + f) be G subs bb ijs s = Some r" .
  from iteration_mono[OF it, of f']
  have "iteration k (f + f') be G (subs, bb, ijs, s) = Some (subs', bb', ijs', s')" .
  from batch_loop_iteration[OF this, of n]
  have "batch_loop (k + n) (f + f') be G subs bb ijs s
          = batch_loop n (f + f') be G subs' bb' ijs' s'" .
  also have "\<dots> = None" using ne stuck by (rule batch_loop_stuck)
  finally show False using a by (simp add: add.commute)
qed

lemma runable_shrinks:
  "get_runable_rules G subs bb \<noteq> [] \<longleftrightarrow>
     length (filter (\<lambda>rule. rule \<notin> set (get_runable_rules G subs bb)) subs) < length subs"
proof
  assume "get_runable_rules G subs bb \<noteq> []"
  then obtain x where x: "x \<in> set (get_runable_rules G subs bb)"
    by (cases "get_runable_rules G subs bb") auto
  then have "x \<in> set subs" by (simp add: get_runable_rules_filter)
  with x show "length (filter (\<lambda>rule. rule \<notin> set (get_runable_rules G subs bb)) subs)
                 < length subs"
    by (intro length_filter_less[of x]) auto
next
  assume l: "length (filter (\<lambda>rule. rule \<notin> set (get_runable_rules G subs bb)) subs)
               < length subs"
  show "get_runable_rules G subs bb \<noteq> []"
  proof
    assume "get_runable_rules G subs bb = []"
    with l show False by simp
  qed
qed

text \<open>
  When each of the first \<open>n\<close> iterations finds a ready rule and its batch returns or raises,
  and the loop starts with at most \<open>n\<close> rules, the loop ends within \<open>n\<close> iterations.
\<close>
lemma batch_loop_terminates:
  "length (fst st) \<le> n \<Longrightarrow>
   \<forall>k < n. (case iteration k f be G st of
               None \<Rightarrow> True
             | Some (subs', bb', ijs', s') \<Rightarrow>
                 get_runable_rules G subs' bb' \<noteq> []
                 \<and> run_concurrent_rules f be G (get_runable_rules G subs' bb') bb' s' \<noteq> None) \<Longrightarrow>
   \<exists>r. batch_loop n f be G (fst st) (fst (snd st)) (fst (snd (snd st))) (snd (snd (snd st)))
          = Some r"
proof (induction n arbitrary: st)
  case 0
  then show ?case by simp
next
  case (Suc n)
  obtain subs bb ijs s where st: "st = (subs, bb, ijs, s)" by (cases st)
  show ?case
  proof (cases "subs = []")
    case True
    with st show ?thesis by simp
  next
    case False
    let ?run = "get_runable_rules G subs bb"
    from Suc.prems(2)[rule_format, of 0] st False
    have ready: "?run \<noteq> []" and ret: "run_concurrent_rules f be G ?run bb s \<noteq> None"
      by simp_all
    from ret obtain x s1 where rc: "run_concurrent_rules f be G ?run bb s = Some (x, s1)"
      by (cases "run_concurrent_rules f be G ?run bb s") auto
    show ?thesis
    proof (cases x)
      case (Inl e)
      with st False rc show ?thesis by simp
    next
      case (Inr q)
      obtain jobs ret where q: "q = (jobs, ret)" by (cases q)
      obtain bb1 s2 where fo: "fold_results ret bb s1 = (bb1, s2)"
        by (cases "fold_results ret bb s1")
      let ?rest = "filter (\<lambda>rule. rule \<notin> set ?run) subs"
      let ?st1 = "(?rest, bb1, ijs @ jobs, s2)"
      have lb: "loop_body f be G st = Some ?st1"
        using st rc Inr q fo by (simp add: loop_body_def)
      from ready have "length ?rest < length subs" by (simp add: runable_shrinks)
      with Suc.prems(1) st have len: "length (fst ?st1) \<le> n" by simp
      have hyp: "\<forall>k < n. (case iteration k f be G ?st1 of
               None \<Rightarrow> True
             | Some (subs', bb', ijs', s') \<Rightarrow>
                 get_runable_rules G subs' bb' \<noteq> []
                 \<and> run_concurrent_rules f be G (get_runable_rules G subs' bb') bb' s' \<noteq> None)"
      proof (intro allI impI)
        fix k assume "k < n"
        then have "Suc k < Suc n" by simp
        from Suc.prems(2)[rule_format, OF this] st False lb
        show "case iteration k f be G ?st1 of
               None \<Rightarrow> True
             | Some (subs', bb', ijs', s') \<Rightarrow>
                 get_runable_rules G subs' bb' \<noteq> []
                 \<and> run_concurrent_rules f be G (get_runable_rules G subs' bb') bb' s' \<noteq> None"
          by simp
      qed
      from Suc.IH[OF len hyp] obtain r where
        "batch_loop n f be G ?rest bb1 (ijs @ jobs) s2 = Some r" by auto
      with st False rc Inr q fo show ?thesis by simp
    qed
  qed
qed

lemma runable_removes_none:
  "get_runable_rules G subs bb = [] \<longleftrightarrow>
     filter (\<lambda>rule. rule \<notin> set (get_runable_rules G subs bb)) subs = subs"
proof
  assume "get_runable_rules G subs bb = []"
  then show "filter (\<lambda>rule. rule \<notin> set (get_runable_rules G subs bb)) subs = subs" by simp
next
  assume e: "filter (\<lambda>rule. rule \<notin> set (get_runable_rules G subs bb)) subs = subs"
  show "get_runable_rules G subs bb = []"
  proof (rule ccontr)
    assume "get_runable_rules G subs bb \<noteq> []"
    then have "length (filter (\<lambda>rule. rule \<notin> set (get_runable_rules G subs bb)) subs)
                 < length subs"
      by (simp add: runable_shrinks)
    with e show False by simp
  qed
qed

lemma iteration_nonempty:
  "iteration k f be G st = Some st' \<Longrightarrow> fst st' \<noteq> []"
proof (induction k arbitrary: st)
  case 0
  then show ?case by (auto split: if_splits)
next
  case (Suc k)
  from Suc.prems have "fst st \<noteq> []" by (auto split: if_splits)
  with Suc.prems obtain st1 where "iteration k f be G st1 = Some st'"
    by (cases "loop_body f be G st") auto
  then show ?case by (rule Suc.IH)
qed

text \<open>
  C7. An iteration of the loop \<open>while sub_rules\<close> makes the list of sub-rules strictly
  shorter when its ready subset is not empty, and leaves it as it is otherwise. The loop
  from its start is the loop from the variables with which it enters any of its
  iterations. When every iteration finds a ready rule, and its batch returns or raises,
  the loop ends, within as many iterations as there are sub-rules. When some iteration
  removes no rule, the loop ends within no bound on the iterations and on the polls. On a
  cluster that cooperates the loop ends for every directed acyclic graph.
\<close>
theorem loop_ends_iff_rules_shrink:
  "(get_runable_rules G subs bb \<noteq> [] \<longleftrightarrow>
      length (filter (\<lambda>rule. rule \<notin> set (get_runable_rules G subs bb)) subs) < length subs)
   \<and> (get_runable_rules G subs bb = [] \<longleftrightarrow>
      filter (\<lambda>rule. rule \<notin> set (get_runable_rules G subs bb)) subs = subs)
   \<and> (iteration k fuel be G (subs, bb, ijs, s) = Some (subs', bb', ijs', s') \<longrightarrow>
        subs' \<noteq> []
        \<and> batch_loop (k + n) fuel be G subs bb ijs s = batch_loop n fuel be G subs' bb' ijs' s')
   \<and> ((\<forall>i < length subs.
          case iteration i fuel be G (subs, bb, ijs, s) of
            None \<Rightarrow> True
          | Some (subs1, bb1, ijs1, s1) \<Rightarrow>
              get_runable_rules G subs1 bb1 \<noteq> []
              \<and> run_concurrent_rules fuel be G (get_runable_rules G subs1 bb1) bb1 s1 \<noteq> None)
        \<longrightarrow> (\<exists>r. \<forall>m. batch_loop (length subs + m) fuel be G subs bb ijs s = Some r))
   \<and> (iteration k fuel be G (subs, bb, ijs, s) = Some (subs', bb', ijs', s')
        \<and> filter (\<lambda>rule. rule \<notin> set (get_runable_rules G subs' bb')) subs' = subs'
        \<longrightarrow> (\<forall>m fuel'. batch_loop m fuel' be G subs bb ijs s = None))
   \<and> (dag G rank all_rules \<and> cooperative be G all_rules \<longrightarrow>
        (\<exists>r. batch_loop (length all_rules) (Suc fuel) be G (sub_rules_of all_rules)
                (init_blackboard G all_rules Map.empty) [] s = Some r))"
proof (intro conjI impI)
  show "get_runable_rules G subs bb \<noteq> [] \<longleftrightarrow>
      length (filter (\<lambda>rule. rule \<notin> set (get_runable_rules G subs bb)) subs) < length subs"
    by (rule runable_shrinks)
  show "get_runable_rules G subs bb = [] \<longleftrightarrow>
      filter (\<lambda>rule. rule \<notin> set (get_runable_rules G subs bb)) subs = subs"
    by (rule runable_removes_none)
next
  assume a: "iteration k fuel be G (subs, bb, ijs, s) = Some (subs', bb', ijs', s')"
  from iteration_nonempty[OF a] show "subs' \<noteq> []" by simp
  from a show "batch_loop (k + n) fuel be G subs bb ijs s
                 = batch_loop n fuel be G subs' bb' ijs' s'"
    by (rule batch_loop_iteration)
next
  assume a: "\<forall>i < length subs.
          case iteration i fuel be G (subs, bb, ijs, s) of
            None \<Rightarrow> True
          | Some (subs1, bb1, ijs1, s1) \<Rightarrow>
              get_runable_rules G subs1 bb1 \<noteq> []
              \<and> run_concurrent_rules fuel be G (get_runable_rules G subs1 bb1) bb1 s1 \<noteq> None"
  have "length (fst (subs, bb, ijs, s)) \<le> length subs" by simp
  from batch_loop_terminates[OF this a] obtain r where
    r: "batch_loop (length subs) fuel be G subs bb ijs s = Some r" by auto
  have "batch_loop (length subs + m) fuel be G subs bb ijs s = Some r" for m
    using batch_loop_mono[OF r, of m 0] by simp
  then show "\<exists>r. \<forall>m. batch_loop (length subs + m) fuel be G subs bb ijs s = Some r" by blast
next
  assume a: "iteration k fuel be G (subs, bb, ijs, s) = Some (subs', bb', ijs', s')
        \<and> filter (\<lambda>rule. rule \<notin> set (get_runable_rules G subs' bb')) subs' = subs'"
  then have it: "iteration k fuel be G (subs, bb, ijs, s) = Some (subs', bb', ijs', s')"
    and "filter (\<lambda>rule. rule \<notin> set (get_runable_rules G subs' bb')) subs' = subs'"
    by simp_all
  then have stuck: "get_runable_rules G subs' bb' = []" by (simp add: runable_removes_none)
  show "\<forall>m fuel'. batch_loop m fuel' be G subs bb ijs s = None"
    using batch_loop_never_returns[OF it stuck] by blast
next
  assume a: "dag G rank all_rules \<and> cooperative be G all_rules"
  then have d: "dag G rank all_rules" and coop: "cooperative be G all_rules" by simp_all
  let ?subs = "sub_rules_of all_rules"
  let ?bb = "init_blackboard G all_rules Map.empty"
  have sub: "set ?subs \<subseteq> set all_rules"
    by (auto simp: sub_rules_of_def dest: in_set_butlastD)
  have inv: "\<forall>rule \<in> set ?subs. \<forall>sub_rule \<in> set (extract_subrules G rule).
        (sub_rule \<in> set ?subs \<or> has_urls ?bb (name G sub_rule)) \<and> rank sub_rule < rank rule"
    using d sub unfolding dag_def by blast
  have len: "length ?subs \<le> length all_rules" by (simp add: sub_rules_of_def)
  from batch_loop_returns[OF coop sub inv len, of fuel "[]" s]
  show "\<exists>r. batch_loop (length all_rules) (Suc fuel) be G ?subs ?bb [] s = Some r" by blast
qed

lemma diamond_iterations:
  "\<forall>i < length [''S'', ''P'', ''Q''].
     case iteration i (Suc 0) ready_backend diamond_ops
            ([''S'', ''P'', ''Q''], init_blackboard diamond_ops [''S'', ''P'', ''Q'', ''T''] Map.empty,
             [], \<lparr>world = (), trace = []\<rparr>) of
       None \<Rightarrow> True
     | Some (subs1, bb1, ijs1, s1) \<Rightarrow>
         get_runable_rules diamond_ops subs1 bb1 \<noteq> []
         \<and> run_concurrent_rules (Suc 0) ready_backend diamond_ops
             (get_runable_rules diamond_ops subs1 bb1) bb1 s1 \<noteq> None"
  by (simp add: All_less_Suc loop_body_def has_urls_def run_concurrent_rules_def
                ready_backend_def diamond_ops_def start_job_def emit_def record_status_def
                get_rule_name_def)

lemma demo_stuck_iteration:
  "iteration (Suc 0) (Suc 0) ready_backend demo_ops
     ([''A'', ''C''], empty_blackboard, [], \<lparr>world = (), trace = []\<rparr>)
   = Some ([''C''], empty_blackboard(''A'' \<mapsto> [''out:A@1'']),
           [\<lparr>ij_rule = ''A'', ij_urls = [], ij_name = ''A@1''\<rparr>],
           \<lparr>world = (),
            trace = [Start ''A'' [] (Some ''A@1''),
                     Poll [''A@1''] (Inr ([(''A@1'', (''ready'', [''out:A@1'']))], [])),
                     Write ''A'' [''out:A@1'']]\<rparr>)"
  by (simp add: loop_body_def has_urls_def run_concurrent_rules_def empty_blackboard_def
                ready_backend_def demo_ops_def start_job_def emit_def record_status_def
                get_rule_name_def)

lemma demo_stuck_rules:
  "filter (\<lambda>rule. rule \<notin> set (get_runable_rules demo_ops [''C'']
                                   (empty_blackboard(''A'' \<mapsto> [''out:A@1'']))))
     [''C''] = [''C'']"
  by (simp add: has_urls_def empty_blackboard_def demo_ops_def)

theorem loop_ends_iff_rules_shrink_witness:
  "(\<exists>r. \<forall>m. batch_loop (length [''S'', ''P'', ''Q''] + m) (Suc 0) ready_backend diamond_ops
              [''S'', ''P'', ''Q'']
              (init_blackboard diamond_ops [''S'', ''P'', ''Q'', ''T''] Map.empty) []
              \<lparr>world = (), trace = []\<rparr> = Some r)
   \<and> iteration (Suc 0) (Suc 0) ready_backend demo_ops
        ([''A'', ''C''], empty_blackboard, [], \<lparr>world = (), trace = []\<rparr>)
      = Some ([''C''], empty_blackboard(''A'' \<mapsto> [''out:A@1'']),
              [\<lparr>ij_rule = ''A'', ij_urls = [], ij_name = ''A@1''\<rparr>],
              \<lparr>world = (),
               trace = [Start ''A'' [] (Some ''A@1''),
                        Poll [''A@1''] (Inr ([(''A@1'', (''ready'', [''out:A@1'']))], [])),
                        Write ''A'' [''out:A@1'']]\<rparr>)
   \<and> (\<forall>m fuel'. batch_loop m fuel' ready_backend demo_ops [''A'', ''C''] empty_blackboard []
                   \<lparr>world = (), trace = []\<rparr> = None)"
proof (intro conjI)
  note ends = loop_ends_iff_rules_shrink
                [where G = diamond_ops and subs = "[''S'', ''P'', ''Q'']"
                   and bb = "init_blackboard diamond_ops [''S'', ''P'', ''Q'', ''T''] Map.empty"
                   and fuel = "Suc 0" and be = ready_backend and ijs = "[]"
                   and s = "\<lparr>world = (), trace = []\<rparr>",
                 THEN conjunct2, THEN conjunct2, THEN conjunct2, THEN conjunct1]
  from ends diamond_iterations
  show "\<exists>r. \<forall>m. batch_loop (length [''S'', ''P'', ''Q''] + m) (Suc 0) ready_backend diamond_ops
              [''S'', ''P'', ''Q'']
              (init_blackboard diamond_ops [''S'', ''P'', ''Q'', ''T''] Map.empty) []
              \<lparr>world = (), trace = []\<rparr> = Some r"
    by (rule mp)
next
  show "iteration (Suc 0) (Suc 0) ready_backend demo_ops
        ([''A'', ''C''], empty_blackboard, [], \<lparr>world = (), trace = []\<rparr>)
      = Some ([''C''], empty_blackboard(''A'' \<mapsto> [''out:A@1'']),
              [\<lparr>ij_rule = ''A'', ij_urls = [], ij_name = ''A@1''\<rparr>],
              \<lparr>world = (),
               trace = [Start ''A'' [] (Some ''A@1''),
                        Poll [''A@1''] (Inr ([(''A@1'', (''ready'', [''out:A@1'']))], [])),
                        Write ''A'' [''out:A@1'']]\<rparr>)"
    by (rule demo_stuck_iteration)
next
  note never = loop_ends_iff_rules_shrink
                [where G = demo_ops and subs = "[''A'', ''C'']" and bb = empty_blackboard
                   and fuel = "Suc 0" and be = ready_backend and ijs = "[]"
                   and s = "\<lparr>world = (), trace = []\<rparr>" and k = "Suc 0"
                   and subs' = "[''C'']"
                   and bb' = "empty_blackboard(''A'' \<mapsto> [''out:A@1''])"
                   and ijs' = "[\<lparr>ij_rule = ''A'', ij_urls = [], ij_name = ''A@1''\<rparr>]"
                   and s' = "\<lparr>world = (),
                              trace = [Start ''A'' [] (Some ''A@1''),
                                       Poll [''A@1'']
                                         (Inr ([(''A@1'', (''ready'', [''out:A@1'']))], [])),
                                       Write ''A'' [''out:A@1'']]\<rparr>",
                 THEN conjunct2, THEN conjunct2, THEN conjunct2, THEN conjunct2, THEN conjunct1]
  from never conjI[OF demo_stuck_iteration demo_stuck_rules]
  show "\<forall>m fuel'. batch_loop m fuel' ready_backend demo_ops [''A'', ''C''] empty_blackboard []
                   \<lparr>world = (), trace = []\<rparr> = None"
    by (rule mp)
qed

end
